theory Spec2Isabelle
  imports
    Main
    "HOL-Library.Word"
    "HOL-Library.Signed_Division"
    "HOL-Library.List_Lexorder"
    "HOL-Library.Char_ord"
    "HOL-Library.AList"
begin

chapter \<open>A shallow embedding of the Go-rpc framework\<close>

text \<open>
  The theory follows the Go sources of the repository: the client of
  \<^verbatim>\<open>Practice/4-timeout/client.go\<close>, the load-balancing client and the registry of
  \<^verbatim>\<open>Practice/7-registry/xclient/xclient.go\<close>, and the discovery and the server with
  timeout supervision. Part I holds the definitions, Part II the properties.
\<close>

section \<open>Part I: the embedding\<close>

subsection \<open>Errors\<close>

text \<open>
  A Go \<^verbatim>\<open>error\<close> value, by the way the sources build it:
  \<^item> \<open>ErrShutdown\<close> is the package variable \<^verbatim>\<open>ErrShutdown\<close>;
  \<^item> \<open>ErrorsNew s\<close> is \<^verbatim>\<open>errors.New(s)\<close>;
  \<^item> \<open>FmtErrorf f\<close> is \<^verbatim>\<open>fmt.Errorf(f)\<close>, the format \<open>f\<close> applied to no operand;
  \<^item> \<open>External s\<close> is an error handed in by a collaborator (the codec, the
    network, a service method), with message \<open>s\<close>;
  \<^item> \<open>Panic s\<close> is a run-time panic (\<^verbatim>\<open>log.Panic\<close>, an index out of range).
\<close>

datatype error =
    ErrShutdown
  | ErrorsNew string
  | FmtErrorf string
  | External string
  | Panic string

subsection \<open>Options of a connection\<close>

text \<open>\<^verbatim>\<open>const Number = 0x1a2b3c\<close>\<close>

definition Number_const :: int where
  "Number_const = 0x1a2b3c"

record Option =
  Number :: int
  CodecType :: string
  ConnectTimeout :: int
  HandleTimeout :: int

text \<open>
  \<^verbatim>\<open>DefaultOption\<close>. The codec package is not among the sources, so the value of
  \<^verbatim>\<open>codec.GobType\<close> is the parameter \<open>gob\<close>. The two durations are left at Go's
  zero value.
\<close>

definition DefaultOption :: "string \<Rightarrow> Option" where
  "DefaultOption gob =
     \<lparr>Number = Number_const, CodecType = gob, ConnectTimeout = 0, HandleTimeout = 0\<rparr>"

text \<open>
  \<^verbatim>\<open>parseOptions(opts ...*Option)\<close>. An element of \<open>opts\<close> is a pointer: \<open>None\<close> is
  \<^verbatim>\<open>nil\<close>. The function writes through the pointer it returns, so the result is a
  pair: what the function returns, and the caller's options after the call.
  The equations are in the order of the source's tests: first
  \<^verbatim>\<open>len(opts) == 0 || opts[0] == nil\<close>, then \<^verbatim>\<open>len(opts) != 1\<close>.
\<close>

fun parseOptions :: "string \<Rightarrow> Option option list \<Rightarrow> (error + Option) \<times> Option option list" where
  "parseOptions gob [] = (Inr (DefaultOption gob), [])"
| "parseOptions gob (None # rest) = (Inr (DefaultOption gob), None # rest)"
| "parseOptions gob (Some o1 # o2 # rest) =
     (Inl (ErrorsNew ''number of options is more than 1''), Some o1 # o2 # rest)"
| "parseOptions gob [Some o1] =
     (let p1 = o1\<lparr>Number := Number (DefaultOption gob)\<rparr>;
          p2 = (if CodecType p1 = [] then p1\<lparr>CodecType := CodecType (DefaultOption gob)\<rparr> else p1)
      in (Inr p2, [Some p2]))"

subsection \<open>Discovery: a hand-maintained list of servers\<close>

text \<open>\<^verbatim>\<open>type SelectMode int\<close> with \<^verbatim>\<open>RandomSelect = iota\<close> and \<^verbatim>\<open>RoundRobinSelect\<close>.\<close>

definition RandomSelect :: int where
  "RandomSelect = 0"

definition RoundRobinSelect :: int where
  "RoundRobinSelect = 1"

text \<open>
  \<^verbatim>\<open>MultiServersDiscovery\<close>. The lock is left out (each method runs under it from its
  first to its last statement), and so is the random source \<^verbatim>\<open>r\<close>: the number it
  draws is an argument of the function that draws it. \<open>index\<close> is a Go \<^verbatim>\<open>int\<close>, 64 bits
  wide and signed.
\<close>

record MultiServersDiscovery =
  servers :: "string list"
  index :: int

text \<open>Addition on Go's \<^verbatim>\<open>int\<close> wraps around at 64 bits.\<close>

definition wrap_int :: "int \<Rightarrow> int" where
  "wrap_int x = signed_take_bit 63 x"

text \<open>\<^verbatim>\<open>xs[i]\<close>: an index outside the slice is a run-time panic.\<close>

definition index_at :: "string list \<Rightarrow> int \<Rightarrow> error + string" where
  "index_at xs i =
     (if 0 \<le> i \<and> i < int (length xs) then Inr (xs ! nat i)
      else Inl (Panic ''index out of range''))"

text \<open>
  \<^verbatim>\<open>NewMultiServerDiscovery(servers)\<close>; \<open>rnd\<close> is what \<^verbatim>\<open>d.r.Intn(math.MaxInt32 - 1)\<close>
  returned, a number from 0 up to, not including, \<open>2\<^sup>3\<^sup>1 - 2\<close>.
\<close>

definition NewMultiServerDiscovery :: "string list \<Rightarrow> int \<Rightarrow> MultiServersDiscovery" where
  "NewMultiServerDiscovery srvs rnd =
     \<lparr>MultiServersDiscovery.servers = srvs, index = rnd\<rparr>"

text \<open>\<^verbatim>\<open>Update(servers)\<close>, which returns no error.\<close>

definition Update :: "string list \<Rightarrow> MultiServersDiscovery \<Rightarrow> MultiServersDiscovery" where
  "Update srvs d = d\<lparr>MultiServersDiscovery.servers := srvs\<rparr>"

text \<open>
  \<^verbatim>\<open>Get(mode)\<close>; \<open>rnd\<close> is what \<^verbatim>\<open>d.r.Intn(n)\<close> returns when the mode is random. Go's
  \<^verbatim>\<open>%\<close> truncates towards zero (\<open>smod\<close>). A panic happens before the index is
  written.
\<close>

definition Get :: "int \<Rightarrow> int \<Rightarrow> MultiServersDiscovery \<Rightarrow> (error + string) \<times> MultiServersDiscovery" where
  "Get rnd mode d =
     (let n = int (length (MultiServersDiscovery.servers d)) in
      if n = 0 then (Inl (ErrorsNew ''rpc discovery: no available servers''), d)
      else if mode = RandomSelect then (index_at (MultiServersDiscovery.servers d) rnd, d)
      else if mode = RoundRobinSelect then
        (case index_at (MultiServersDiscovery.servers d) (index d smod n) of
           Inl e \<Rightarrow> (Inl e, d)
         | Inr s \<Rightarrow> (Inr s, d\<lparr>index := wrap_int (index d + 1) smod n\<rparr>))
      else (Inl (ErrorsNew ''rpc discovery: not supported select mode''), d))"

text \<open>\<open>k\<close> calls of \<^verbatim>\<open>Get(RoundRobinSelect)\<close> in a row, and what each returned.\<close>

fun Get_times :: "nat \<Rightarrow> MultiServersDiscovery \<Rightarrow> (error + string) list \<times> MultiServersDiscovery" where
  "Get_times 0 d = ([], d)"
| "Get_times (Suc k) d =
     (case Get 0 RoundRobinSelect d of
        (r, d1) \<Rightarrow> (case Get_times k d1 of (rs, d2) \<Rightarrow> (r # rs, d2)))"

text \<open>
  The state a discovery is in between calls: the index is not negative and adding one
  to it does not overflow; the slice's length is a Go \<^verbatim>\<open>int\<close>.
\<close>

definition discovery_ok :: "MultiServersDiscovery \<Rightarrow> bool" where
  "discovery_ok d =
     (0 \<le> index d \<and> index d < 2 ^ 63 - 1 \<and> int (length (MultiServersDiscovery.servers d)) < 2 ^ 63)"

subsection \<open>The registry\<close>

text \<open>A time is a count of nanoseconds, a duration a difference of two.\<close>

record ServerItem =
  Addr :: string
  start :: int

record GoRegistry =
  timeout :: int
  servers :: "string \<rightharpoonup> ServerItem"

text \<open>\<^verbatim>\<open>New(timeout)\<close>\<close>

definition New :: "int \<Rightarrow> GoRegistry" where
  "New t = \<lparr>timeout = t, GoRegistry.servers = Map.empty\<rparr>"

text \<open>\<^verbatim>\<open>putServer(addr)\<close>; \<open>now\<close> is what \<^verbatim>\<open>time.Now()\<close> returns.\<close>

definition putServer :: "int \<Rightarrow> string \<Rightarrow> GoRegistry \<Rightarrow> GoRegistry" where
  "putServer now addr r =
     (case GoRegistry.servers r addr of
        None \<Rightarrow> r\<lparr>GoRegistry.servers := (GoRegistry.servers r)(addr \<mapsto> \<lparr>Addr = addr, start = now\<rparr>)\<rparr>
      | Some s \<Rightarrow> r\<lparr>GoRegistry.servers := (GoRegistry.servers r)(addr \<mapsto> s\<lparr>start := now\<rparr>)\<rparr>)"

text \<open>
  The loop of \<^verbatim>\<open>aliveServers\<close>. Go ranges over a map in an order of the run-time's
  choosing: \<open>ks\<close> is the order in which the keys come. An entry deleted before it is
  reached is not produced (\<open>None\<close>). The clock is read once for each entry, when the
  timeout is not zero: \<open>now addr\<close> is what it shows when the entry of \<open>addr\<close> is tested.
\<close>

fun aliveServers_loop ::
  "(string \<Rightarrow> int) \<Rightarrow> string list \<Rightarrow> GoRegistry \<Rightarrow> string list \<Rightarrow> string list \<times> GoRegistry" where
  "aliveServers_loop now [] r alive = (alive, r)"
| "aliveServers_loop now (addr # ks) r alive =
     (case GoRegistry.servers r addr of
        None \<Rightarrow> aliveServers_loop now ks r alive
      | Some s \<Rightarrow>
          if timeout r = 0 \<or> now addr < start s + timeout r
          then aliveServers_loop now ks r (alive @ [addr])
          else aliveServers_loop now ks
                 (r\<lparr>GoRegistry.servers := (GoRegistry.servers r)(addr := None)\<rparr>) alive)"

text \<open>
  For the statements about the loop: the address \<open>a\<close> is stored in the registry and
  passes the loop's test, read at the time the loop reaches it.
\<close>

definition alive_at :: "GoRegistry \<Rightarrow> (string \<Rightarrow> int) \<Rightarrow> string \<Rightarrow> bool" where
  "alive_at r now a =
     (case GoRegistry.servers r a of
        None \<Rightarrow> False
      | Some s \<Rightarrow> timeout r = 0 \<or> now a < start s + timeout r)"

text \<open>\<^verbatim>\<open>aliveServers()\<close>: the loop, then \<^verbatim>\<open>sort.Strings\<close> (bytewise lexicographic).\<close>

definition aliveServers :: "(string \<Rightarrow> int) \<Rightarrow> string list \<Rightarrow> GoRegistry \<Rightarrow> string list \<times> GoRegistry" where
  "aliveServers now ks r =
     (case aliveServers_loop now ks r [] of (alive, r1) \<Rightarrow> (sort alive, r1))"

text \<open>\<^verbatim>\<open>strings.Join(elems, sep)\<close>\<close>

fun Join :: "string list \<Rightarrow> string \<Rightarrow> string" where
  "Join [] sep = []"
| "Join [a] sep = a"
| "Join (a # b # rest) sep = a @ sep @ Join (b # rest) sep"

text \<open>
  An HTTP request as \<^verbatim>\<open>ServeHTTP\<close> reads it (the method and the header
  \<^verbatim>\<open>X-Gorpc-Server\<close>, empty when absent), and the response as it writes it (the
  status, 200 unless set, and the header \<^verbatim>\<open>X-Gorpc-Servers\<close>, when set).
\<close>

record Request =
  Method :: string
  X_Gorpc_Server :: string

record Response =
  status :: nat
  X_Gorpc_Servers :: "string option"

definition ServeHTTP ::
  "(string \<Rightarrow> int) \<Rightarrow> string list \<Rightarrow> int \<Rightarrow> Request \<Rightarrow> GoRegistry \<Rightarrow> Response \<times> GoRegistry" where
  "ServeHTTP now ks now_put req r =
     (if Method req = ''GET'' then
        (case aliveServers now ks r of
           (alive, r1) \<Rightarrow> (\<lparr>status = 200, X_Gorpc_Servers = Some (Join alive '','')\<rparr>, r1))
      else if Method req = ''POST'' then
        (if X_Gorpc_Server req = [] then (\<lparr>status = 500, X_Gorpc_Servers = None\<rparr>, r)
         else (\<lparr>status = 200, X_Gorpc_Servers = None\<rparr>, putServer now_put (X_Gorpc_Server req) r))
      else (\<lparr>status = 405, X_Gorpc_Servers = None\<rparr>, r))"

subsection \<open>Broadcast of the load-balancing client\<close>

text \<open>
  The variables the tasks of \<^verbatim>\<open>Broadcast\<close> share: the error \<^verbatim>\<open>e\<close>, the flag
  \<^verbatim>\<open>replyDone\<close>, whether \<^verbatim>\<open>cancel()\<close> has been called, and the counter of the wait
  group. \<open>reply_writes\<close> lists, in order, the values stored through the caller's
  \<^verbatim>\<open>reply\<close> pointer.
\<close>

record Broadcast_state =
  bc_e :: "error option"
  replyDone :: bool
  reply_writes :: "string list"
  cancelled :: bool
  wg :: nat

text \<open>
  \<^verbatim>\<open>Broadcast\<close> up to \<^verbatim>\<open>wg.Wait()\<close>: \<open>getall\<close> is what \<^verbatim>\<open>xc.d.GetAll()\<close> returned, and
  \<open>reply_nil\<close> says that the caller's \<^verbatim>\<open>reply\<close> is nil. One task is started for each
  server.
\<close>

definition Broadcast_start :: "(error + string list) \<Rightarrow> bool \<Rightarrow> error + Broadcast_state" where
  "Broadcast_start getall reply_nil =
     (case getall of
        Inl err \<Rightarrow> Inl err
      | Inr srvs \<Rightarrow>
          Inr \<lparr>bc_e = None, replyDone = reply_nil, reply_writes = [], cancelled = False,
               wg = length srvs\<rparr>)"

text \<open>
  The end of one task: what it does between \<^verbatim>\<open>mu.Lock()\<close> and \<^verbatim>\<open>mu.Unlock()\<close>, and
  \<^verbatim>\<open>wg.Done()\<close>. \<open>res\<close> is the outcome of its \<^verbatim>\<open>xc.call\<close>: the error, or the value the
  call left in the task's own \<^verbatim>\<open>clonedReply\<close>. No task is left to end when the counter
  is zero (\<open>None\<close>).
\<close>

definition task_finish :: "error + string \<Rightarrow> Broadcast_state \<Rightarrow> Broadcast_state option" where
  "task_finish res st =
     (if wg st = 0 then None
      else
        let st1 = (case res of
                     Inl err \<Rightarrow> if bc_e st = None then st\<lparr>bc_e := Some err, cancelled := True\<rparr> else st
                   | Inr v \<Rightarrow> st);
            st2 = (case res of
                     Inl err \<Rightarrow> st1
                   | Inr v \<Rightarrow>
                       if \<not> replyDone st1
                       then st1\<lparr>reply_writes := reply_writes st1 @ [v], replyDone := True\<rparr>
                       else st1)
        in Some (st2\<lparr>wg := wg st2 - 1\<rparr>))"

text \<open>The tasks end one after the other, in the order in which they take the lock.\<close>

fun tasks_finish :: "(error + string) list \<Rightarrow> Broadcast_state \<Rightarrow> Broadcast_state option" where
  "tasks_finish [] st = Some st"
| "tasks_finish (res # rs) st =
     (case task_finish res st of None \<Rightarrow> None | Some st1 \<Rightarrow> tasks_finish rs st1)"

text \<open>\<^verbatim>\<open>wg.Wait(); return e\<close>: the wait ends when the counter is zero.\<close>

definition Broadcast_wait :: "Broadcast_state \<Rightarrow> error option option" where
  "Broadcast_wait st = (if wg st = 0 then Some (bc_e st) else None)"

text \<open>
  \<^verbatim>\<open>Broadcast\<close> when the tasks of \<open>rs\<close> have ended, in this order: what it returns and what
  was stored through \<^verbatim>\<open>reply\<close>, or \<open>None\<close> while it waits.
\<close>

definition Broadcast ::
  "(error + string list) \<Rightarrow> bool \<Rightarrow> (error + string) list \<Rightarrow> (error option \<times> string list) option" where
  "Broadcast getall reply_nil rs =
     (case Broadcast_start getall reply_nil of
        Inl err \<Rightarrow> Some (Some err, [])
      | Inr st \<Rightarrow>
          (case tasks_finish rs st of
             None \<Rightarrow> None
           | Some st1 \<Rightarrow>
               (case Broadcast_wait st1 of
                  None \<Rightarrow> None
                | Some r \<Rightarrow> Some (r, reply_writes st1))))"

text \<open>For the statements: the first error and the first value among the outcomes.\<close>

fun first_error :: "(error + string) list \<Rightarrow> error option" where
  "first_error [] = None"
| "first_error (Inl err # rs) = Some err"
| "first_error (Inr v # rs) = first_error rs"

fun first_success :: "(error + string) list \<Rightarrow> string list" where
  "first_success [] = []"
| "first_success (Inl err # rs) = first_success rs"
| "first_success (Inr v # rs) = [v]"

subsection \<open>Headers\<close>

text \<open>\<^verbatim>\<open>codec.Header\<close>, with the three fields the sources read and write.\<close>

record Header =
  ServiceMethod :: string
  Seq :: "64 word"
  Error :: string

subsection \<open>The server's handling of one request\<close>

text \<open>
  The body of a response: the placeholder \<^verbatim>\<open>invalidRequest\<close>, or the reply value.
\<close>

datatype body = InvalidRequest | ReplyValue string

text \<open>
  \<^verbatim>\<open>handleRequest\<close> runs two goroutines that meet on the unbuffered channels
  \<^verbatim>\<open>called\<close> and \<^verbatim>\<open>sent\<close>. The worker is in the method (\<open>Calling\<close>), at
  \<^verbatim>\<open>called <- struct{}{}\<close> with the method's error (\<open>SendCalled\<close>), at its
  \<^verbatim>\<open>sendResponse\<close> (\<open>Responding\<close>), at \<^verbatim>\<open>sent <- struct{}{}\<close> (\<open>SendSent\<close>), or has returned.
  The supervisor is at \<^verbatim>\<open><-called\<close> or \<^verbatim>\<open><-sent\<close> of the path without timeout, at the
  \<^verbatim>\<open>select\<close>, at the \<^verbatim>\<open>sendResponse\<close> of the timeout, at the \<^verbatim>\<open><-called\<close> or \<^verbatim>\<open><-sent\<close>
  that follow it, or has returned.
\<close>

datatype worker_pc = Calling | SendCalled "string option" | Responding "string option" | SendSent | WorkerExit

datatype supervisor_pc = RecvCalled | RecvSent | Select | TimedOut | DrainCalled | DrainSent | Returned

text \<open>
  \<open>req_h\<close> is the header \<^verbatim>\<open>req.h\<close>, which both goroutines write through the same pointer;
  \<open>wire\<close> lists the frames handed to \<^verbatim>\<open>cc.Write\<close>, in order.
\<close>

record handle_state =
  req_h :: Header
  wire :: "(Header \<times> body) list"
  worker :: worker_pc
  supervisor :: supervisor_pc

definition handleRequest_init :: "Header \<Rightarrow> int \<Rightarrow> handle_state" where
  "handleRequest_init hdr tmo =
     \<lparr>req_h = hdr, wire = [], worker = Calling,
      supervisor = (if tmo = 0 then RecvCalled else Select)\<rparr>"

text \<open>
  What can happen next: the method returns (with its error, if any), the two
  goroutines meet on \<^verbatim>\<open>called\<close>, the timer of \<^verbatim>\<open>time.After(timeout)\<close> is chosen by the
  \<^verbatim>\<open>select\<close>, the supervisor writes the timeout response, the worker writes its
  response, the two goroutines meet on \<^verbatim>\<open>sent\<close>.
\<close>

datatype handle_event = MethodReturns "string option" | Called | TimerFires | WriteTimeout | WriteResponse | Sent

text \<open>
  One step; \<open>None\<close> when the event cannot happen in the state. \<open>replyv\<close> is the reply
  value after the method ran and \<open>dur\<close> the text \<^verbatim>\<open>%s\<close> prints for the timeout.
\<close>

fun handle_step :: "string \<Rightarrow> string \<Rightarrow> handle_event \<Rightarrow> handle_state \<Rightarrow> handle_state option" where
  "handle_step replyv dur (MethodReturns err) s =
     (if worker s = Calling then Some (s\<lparr>worker := SendCalled err\<rparr>) else None)"
| "handle_step replyv dur Called s =
     (case worker s of
        SendCalled err \<Rightarrow>
          (if supervisor s = RecvCalled \<or> supervisor s = Select
           then Some (s\<lparr>worker := Responding err, supervisor := RecvSent\<rparr>)
           else if supervisor s = DrainCalled
           then Some (s\<lparr>worker := Responding err, supervisor := DrainSent\<rparr>)
           else None)
      | _ \<Rightarrow> None)"
| "handle_step replyv dur TimerFires s =
     (if supervisor s = Select then Some (s\<lparr>supervisor := TimedOut\<rparr>) else None)"
| "handle_step replyv dur WriteTimeout s =
     (if supervisor s = TimedOut
      then let hdr = (req_h s)\<lparr>Header.Error := ''rpc server: request handle timeout: expect within '' @ dur\<rparr>
           in Some (s\<lparr>req_h := hdr, wire := wire s @ [(hdr, InvalidRequest)], supervisor := DrainCalled\<rparr>)
      else None)"
| "handle_step replyv dur WriteResponse s =
     (case worker s of
        Responding (Some msg) \<Rightarrow>
          (let hdr = (req_h s)\<lparr>Header.Error := msg\<rparr>
           in Some (s\<lparr>req_h := hdr, wire := wire s @ [(hdr, InvalidRequest)], worker := SendSent\<rparr>))
      | Responding None \<Rightarrow>
          Some (s\<lparr>wire := wire s @ [(req_h s, ReplyValue replyv)], worker := SendSent\<rparr>)
      | _ \<Rightarrow> None)"
| "handle_step replyv dur Sent s =
     (if worker s = SendSent \<and> (supervisor s = RecvSent \<or> supervisor s = DrainSent)
      then Some (s\<lparr>worker := WorkerExit, supervisor := Returned\<rparr>)
      else None)"

fun handle_run :: "string \<Rightarrow> string \<Rightarrow> handle_event list \<Rightarrow> handle_state \<Rightarrow> handle_state option" where
  "handle_run replyv dur [] s = Some s"
| "handle_run replyv dur (ev # evs) s =
     (case handle_step replyv dur ev s of
        None \<Rightarrow> None
      | Some s1 \<Rightarrow> handle_run replyv dur evs s1)"

text \<open>
  The states \<^verbatim>\<open>handleRequest\<close> passes through: the two goroutines are at matching
  places.
\<close>

definition handle_coherent :: "handle_state \<Rightarrow> bool" where
  "handle_coherent s =
     (case supervisor s of
        RecvCalled \<Rightarrow> (worker s = Calling \<or> (\<exists>err. worker s = SendCalled err)) \<and> wire s = []
      | Select \<Rightarrow> (worker s = Calling \<or> (\<exists>err. worker s = SendCalled err)) \<and> wire s = []
      | TimedOut \<Rightarrow> (worker s = Calling \<or> (\<exists>err. worker s = SendCalled err)) \<and> wire s = []
      | DrainCalled \<Rightarrow> (worker s = Calling \<or> (\<exists>err. worker s = SendCalled err)) \<and> length (wire s) = 1
      | RecvSent \<Rightarrow> ((\<exists>err. worker s = Responding err) \<and> wire s = []) \<or> (worker s = SendSent \<and> length (wire s) = 1)
      | DrainSent \<Rightarrow> ((\<exists>err. worker s = Responding err) \<and> length (wire s) = 1) \<or> (worker s = SendSent \<and> length (wire s) = 2)
      | Returned \<Rightarrow> worker s = WorkerExit)"

text \<open>
  For the statements: the number of frames on the wire when \<^verbatim>\<open>handleRequest\<close> has
  returned, told from the supervisor's place and from whether the timer will fire.
\<close>

definition frames_due :: "handle_state \<Rightarrow> bool \<Rightarrow> nat" where
  "frames_due s timer =
     (case supervisor s of
        RecvCalled \<Rightarrow> 1
      | RecvSent \<Rightarrow> 1
      | Select \<Rightarrow> (if timer then 2 else 1)
      | TimedOut \<Rightarrow> 2
      | DrainCalled \<Rightarrow> 2
      | DrainSent \<Rightarrow> 2
      | Returned \<Rightarrow> length (wire s))"

subsection \<open>The client: data\<close>

text \<open>
  A function of the client returns, panics, or cannot go on: it is blocked at a lock
  another goroutine holds or at a channel that is full.
\<close>

datatype 'a outcome = Returns 'a | Panics string | Blocks

text \<open>
  \<^verbatim>\<open>Call\<close>. The arguments and the reply are values in their encoded form; \<open>Args\<close> and
  \<open>Reply\<close> are \<open>None\<close> for a nil interface, and \<open>Reply\<close> holds what the reply pointer
  points to. \<open>Done\<close> names a channel of the store below.
\<close>

record Call =
  Seq :: "64 word"
  ServiceMethod :: string
  Args :: "string option"
  Reply :: "string option"
  Error :: "error option"
  Done :: nat

text \<open>A channel of \<^verbatim>\<open>*Call\<close>: its capacity and the calls waiting in it, the oldest first.\<close>

record Chan =
  cap :: nat
  buf :: "nat list"

text \<open>
  The codec is a collaborator. Of its state the model keeps the frames whose write
  succeeded and the number of times it was closed; what its functions return is an
  argument of the function that calls them, an error being given by its message.
\<close>

record Codec =
  written :: "(Header \<times> string option) list"
  closes :: nat

text \<open>
  The mutex \<^verbatim>\<open>sending\<close> and, when it is held, where its holder stands: a sender has
  registered the call (sequence number, pointer) and is in \<^verbatim>\<open>cc.Write\<close>; a sender is
  about to signal the call it could not register or write; or \<^verbatim>\<open>terminateCalls\<close>
  holds it, together with \<^verbatim>\<open>mu\<close>.
\<close>

datatype sending_state = Unlocked | Writing "64 word" nat | Signalling nat | Terminating

text \<open>
  Where the goroutine of \<^verbatim>\<open>receive\<close> stands: at \<^verbatim>\<open>ReadHeader\<close>; about to signal the
  call it took from the map, with the error the body's read returned; out of the loop
  with an error, not yet in \<^verbatim>\<open>terminateCalls\<close>; in the loop of \<^verbatim>\<open>terminateCalls\<close>, with
  the keys still to come; or returned.
\<close>

datatype receiver_state =
    Reading
  | Completing nat "string option"
  | Failed string
  | Notifying string "64 word list"
  | Exited

text \<open>
  \<^verbatim>\<open>Client\<close>. The map \<^verbatim>\<open>pending\<close> is an association list from sequence numbers to
  pointers to calls. The mutex \<^verbatim>\<open>mu\<close> is held from the first to the last statement of
  each function that takes it; only \<^verbatim>\<open>terminateCalls\<close> can block while it holds it.
\<close>

record Client =
  cc :: Codec
  opt :: Option
  sending :: sending_state
  header :: Header
  seq :: "64 word"
  pending :: "(64 word \<times> nat) list"
  closing :: bool
  shutdown :: bool

text \<open>
  The client together with what its goroutines share with it: the calls and the
  channels, each in a store with the next free address, and the receiver. \<open>fired\<close>
  lists the calls signalled by \<^verbatim>\<open>call.done()\<close>, in order.
\<close>

record World = Client +
  calls :: "nat \<rightharpoonup> Call"
  ncalls :: nat
  chans :: "nat \<rightharpoonup> Chan"
  nchans :: nat
  receiver :: receiver_state
  fired :: "nat list"

subsection \<open>The client: functions\<close>

text \<open>
  \<^verbatim>\<open>NewClientCodec(cc, opt)\<close> on a codec not yet written to: the sequence number starts
  at 1 and the receiver is started. No call and no channel exists yet.
\<close>

definition NewClientCodec :: "Option \<Rightarrow> World" where
  "NewClientCodec op =
     \<lparr>cc = \<lparr>written = [], closes = 0\<rparr>, opt = op, sending = Unlocked,
      header = \<lparr>Header.ServiceMethod = [], Header.Seq = 0, Header.Error = []\<rparr>,
      seq = 1, pending = [], closing = False, shutdown = False,
      calls = Map.empty, ncalls = 0, chans = Map.empty, nchans = 0,
      receiver = Reading, fired = []\<rparr>"

text \<open>\<^verbatim>\<open>Close()\<close>; \<open>cerr\<close> is what \<^verbatim>\<open>client.cc.Close()\<close> returns.\<close>

definition Close :: "string option \<Rightarrow> 'a Client_scheme \<Rightarrow> error option \<times> 'a Client_scheme" where
  "Close cerr c =
     (if closing c then (Some ErrShutdown, c)
      else (map_option External cerr,
            c\<lparr>closing := True, cc := (cc c)\<lparr>closes := closes (cc c) + 1\<rparr>\<rparr>))"

text \<open>\<^verbatim>\<open>IsAvailable()\<close>\<close>

definition IsAvailable :: "'a Client_scheme \<Rightarrow> bool" where
  "IsAvailable c = (\<not> shutdown c \<and> \<not> closing c)"

text \<open>Writing a field of a call through its pointer.\<close>

definition set_Seq :: "nat \<Rightarrow> 64 word \<Rightarrow> World \<Rightarrow> World" where
  "set_Seq c sq w = w\<lparr>calls := (calls w)(c := map_option (\<lambda>x. x\<lparr>Call.Seq := sq\<rparr>) (calls w c))\<rparr>"

definition set_Error :: "nat \<Rightarrow> error \<Rightarrow> World \<Rightarrow> World" where
  "set_Error c err w = w\<lparr>calls := (calls w)(c := map_option (\<lambda>x. x\<lparr>Call.Error := Some err\<rparr>) (calls w c))\<rparr>"

text \<open>Decoding a body into the reply of a call; a nil reply takes nothing.\<close>

definition set_Reply :: "nat \<Rightarrow> string \<Rightarrow> World \<Rightarrow> World" where
  "set_Reply c v w =
     w\<lparr>calls := (calls w)(c := map_option
          (\<lambda>x. x\<lparr>Call.Reply := (case Call.Reply x of None \<Rightarrow> None | Some old \<Rightarrow> Some v)\<rparr>) (calls w c))\<rparr>"

text \<open>\<^verbatim>\<open>registerCall(call)\<close>: the sequence number and the error, and the new state.\<close>

definition registerCall :: "nat \<Rightarrow> World \<Rightarrow> (64 word \<times> error option) \<times> World" where
  "registerCall c w =
     (if closing w \<or> shutdown w then ((0, Some ErrShutdown), w)
      else ((seq w, None),
            (set_Seq c (seq w) w)\<lparr>pending := AList.update (seq w) c (pending w), seq := seq w + 1\<rparr>))"

text \<open>\<^verbatim>\<open>removeCall(seq)\<close>: the call, \<open>None\<close> for nil, and the new state.\<close>

definition removeCall :: "64 word \<Rightarrow> World \<Rightarrow> nat option \<times> World" where
  "removeCall sq w = (map_of (pending w) sq, w\<lparr>pending := AList.delete sq (pending w)\<rparr>)"

text \<open>
  \<^verbatim>\<open>call.done()\<close>, the send \<^verbatim>\<open>call.Done <- call\<close>: it goes through when the channel has
  room, and blocks otherwise (\<open>None\<close>); no channel of capacity zero comes from \<^verbatim>\<open>Go\<close>.
\<close>

definition Call_done :: "nat \<Rightarrow> World \<Rightarrow> World option" where
  "Call_done c w =
     (case calls w c of
        None \<Rightarrow> None
      | Some x \<Rightarrow>
          (case chans w (Done x) of
             None \<Rightarrow> None
           | Some ch \<Rightarrow>
               if length (buf ch) < cap ch
               then Some (w\<lparr>chans := (chans w)(Done x \<mapsto> ch\<lparr>buf := buf ch @ [c]\<rparr>), fired := fired w @ [c]\<rparr>)
               else None))"

text \<open>\<^verbatim>\<open>make(chan *Call, n)\<close> and \<^verbatim>\<open>&Call{...}\<close>: the new address and the new state.\<close>

definition make_chan :: "nat \<Rightarrow> World \<Rightarrow> nat \<times> World" where
  "make_chan n w =
     (nchans w, w\<lparr>chans := (chans w)(nchans w \<mapsto> \<lparr>cap = n, buf = []\<rparr>), nchans := nchans w + 1\<rparr>)"

definition new_Call :: "string \<Rightarrow> string option \<Rightarrow> string option \<Rightarrow> nat \<Rightarrow> World \<Rightarrow> nat \<times> World" where
  "new_Call sm args reply ch w =
     (ncalls w,
      w\<lparr>calls := (calls w)(ncalls w \<mapsto>
           \<lparr>Call.Seq = 0, Call.ServiceMethod = sm, Args = args, Reply = reply, Call.Error = None, Done = ch\<rparr>),
        ncalls := ncalls w + 1\<rparr>)"

text \<open>
  \<^verbatim>\<open>send(call)\<close> in three parts, cut where it can wait. The first takes the lock
  \<^verbatim>\<open>sending\<close> (blocked while it is held), registers the call and prepares the header.
\<close>

definition send_begin :: "nat \<Rightarrow> World \<Rightarrow> World option" where
  "send_begin c w =
     (if sending w \<noteq> Unlocked then None
      else
        (case registerCall c w of
           ((sq, Some err), w1) \<Rightarrow> Some ((set_Error c err w1)\<lparr>sending := Signalling c\<rparr>)
         | ((sq, None), w1) \<Rightarrow>
             (case calls w1 c of
                None \<Rightarrow> None
              | Some x \<Rightarrow>
                  Some (w1\<lparr>header := \<lparr>Header.ServiceMethod = Call.ServiceMethod x, Header.Seq = sq,
                                      Header.Error = []\<rparr>,
                          sending := Writing sq c\<rparr>))))"

text \<open>
  The second part is the return of \<^verbatim>\<open>cc.Write(&client.header, call.Args)\<close>, with the
  message of its error in \<open>res\<close>, if any. After an error the call is taken from the
  map; it may be gone already.
\<close>

definition send_written :: "string option \<Rightarrow> World \<Rightarrow> World option" where
  "send_written res w =
     (case sending w of
        Writing sq c \<Rightarrow>
          (case res of
             None \<Rightarrow>
               (case calls w c of
                  None \<Rightarrow> None
                | Some x \<Rightarrow>
                    Some (w\<lparr>cc := (cc w)\<lparr>written := written (cc w) @ [(header w, Args x)]\<rparr>,
                            sending := Unlocked\<rparr>))
           | Some msg \<Rightarrow>
               (case removeCall sq w of
                  (None, w1) \<Rightarrow> Some (w1\<lparr>sending := Unlocked\<rparr>)
                | (Some c1, w1) \<Rightarrow> Some ((set_Error c1 (External msg) w1)\<lparr>sending := Signalling c1\<rparr>)))
      | _ \<Rightarrow> None)"

text \<open>The third part signals the call that failed, and gives the lock back.\<close>

definition send_signal :: "World \<Rightarrow> World option" where
  "send_signal w =
     (case sending w of
        Signalling c \<Rightarrow> map_option (\<lambda>w1. w1\<lparr>sending := Unlocked\<rparr>) (Call_done c w)
      | _ \<Rightarrow> None)"

text \<open>
  \<^verbatim>\<open>Go(serviceMethod, args, reply, done)\<close> up to the call of \<^verbatim>\<open>cc.Write\<close>; \<open>dn\<close> is \<open>None\<close>
  for a nil channel. A channel that is not in the store is no value of Go.
\<close>

definition Go_begin ::
  "string \<Rightarrow> string option \<Rightarrow> string option \<Rightarrow> nat option \<Rightarrow> World \<Rightarrow> (nat \<times> World) outcome" where
  "Go_begin sm args reply dn w =
     (case (case dn of
              None \<Rightarrow> Returns (make_chan 10 w)
            | Some ch \<Rightarrow>
                (case chans w ch of
                   None \<Rightarrow> Panics ''invalid channel''
                 | Some x \<Rightarrow>
                     if cap x = 0 then Panics ''rpc client: done channel is unbuffered''
                     else Returns (ch, w))) of
        Returns (ch, w1) \<Rightarrow>
          (case new_Call sm args reply ch w1 of
             (c, w2) \<Rightarrow> (case send_begin c w2 of None \<Rightarrow> Blocks | Some w3 \<Rightarrow> Returns (c, w3)))
      | Panics msg \<Rightarrow> Panics msg
      | Blocks \<Rightarrow> Blocks)"

text \<open>The rest of \<^verbatim>\<open>send\<close>, for a write that returns \<open>res\<close>.\<close>

definition send_rest :: "string option \<Rightarrow> World \<Rightarrow> World option" where
  "send_rest res w =
     (case sending w of
        Writing sq c \<Rightarrow>
          (case send_written res w of
             None \<Rightarrow> None
           | Some w1 \<Rightarrow> (case sending w1 of Signalling c1 \<Rightarrow> send_signal w1 | _ \<Rightarrow> Some w1))
      | Signalling c \<Rightarrow> send_signal w
      | _ \<Rightarrow> None)"

text \<open>\<^verbatim>\<open>Go\<close> from its first to its last statement, no other goroutine running meanwhile.\<close>

definition Go ::
  "string \<Rightarrow> string option \<Rightarrow> string option \<Rightarrow> nat option \<Rightarrow> string option \<Rightarrow> World \<Rightarrow> (nat \<times> World) outcome" where
  "Go sm args reply dn res w =
     (case Go_begin sm args reply dn w of
        Returns (c, w1) \<Rightarrow> (case send_rest res w1 of None \<Rightarrow> Blocks | Some w2 \<Rightarrow> Returns (c, w2))
      | Panics msg \<Rightarrow> Panics msg
      | Blocks \<Rightarrow> Blocks)"

text \<open>The receiver after an iteration whose body read returned \<open>err\<close>.\<close>

definition after_body :: "string option \<Rightarrow> receiver_state" where
  "after_body err = (case err of None \<Rightarrow> Reading | Some msg \<Rightarrow> Failed msg)"

text \<open>
  One iteration of the loop of \<^verbatim>\<open>receive\<close>, up to \<^verbatim>\<open>call.done()\<close>: \<^verbatim>\<open>ReadHeader\<close> gave
  the header \<open>hdr\<close>; \<open>drain\<close> is what \<^verbatim>\<open>ReadBody(nil)\<close> returns on the body that follows,
  and \<open>decode\<close> what \<^verbatim>\<open>ReadBody(call.Reply)\<close> returns on it, the error or the value.
  \<^verbatim>\<open>removeCall\<close> waits for \<^verbatim>\<open>mu\<close>.
\<close>

definition receive_frame :: "Header \<Rightarrow> string option \<Rightarrow> string + string \<Rightarrow> World \<Rightarrow> World option" where
  "receive_frame hdr drain decode w =
     (if receiver w \<noteq> Reading \<or> sending w = Terminating then None
      else
        (case removeCall (Header.Seq hdr) w of
           (None, w1) \<Rightarrow> Some (w1\<lparr>receiver := after_body drain\<rparr>)
         | (Some c, w1) \<Rightarrow>
             if Header.Error hdr \<noteq> []
             then Some ((set_Error c (FmtErrorf (Header.Error hdr)) w1)\<lparr>receiver := Completing c drain\<rparr>)
             else
               (case decode of
                  Inl msg \<Rightarrow>
                    Some ((set_Error c (ErrorsNew (''reading body '' @ msg)) w1)\<lparr>receiver := Completing c (Some msg)\<rparr>)
                | Inr v \<Rightarrow> Some ((set_Reply c v w1)\<lparr>receiver := Completing c None\<rparr>))))"

text \<open>The \<^verbatim>\<open>call.done()\<close> that ends the iteration.\<close>

definition receive_complete :: "World \<Rightarrow> World option" where
  "receive_complete w =
     (case receiver w of
        Completing c err \<Rightarrow> map_option (\<lambda>w1. w1\<lparr>receiver := after_body err\<rparr>) (Call_done c w)
      | _ \<Rightarrow> None)"

text \<open>\<^verbatim>\<open>ReadHeader\<close> returns an error: the loop ends.\<close>

definition receive_header_error :: "string \<Rightarrow> World \<Rightarrow> World option" where
  "receive_header_error msg w = (if receiver w = Reading then Some (w\<lparr>receiver := Failed msg\<rparr>) else None)"

text \<open>
  \<^verbatim>\<open>terminateCalls(err)\<close> in three parts. The first takes both locks and sets
  \<^verbatim>\<open>shutdown\<close>; \<open>ks\<close> is the order in which Go will range over \<^verbatim>\<open>pending\<close>. The second
  is one turn of the loop. The third gives the locks back.
\<close>

definition terminateCalls_begin :: "64 word list \<Rightarrow> World \<Rightarrow> World option" where
  "terminateCalls_begin ks w =
     (case receiver w of
        Failed msg \<Rightarrow>
          if sending w = Unlocked \<and> distinct ks \<and> set ks = set (map fst (pending w))
          then Some (w\<lparr>sending := Terminating, shutdown := True, receiver := Notifying msg ks\<rparr>)
          else None
      | _ \<Rightarrow> None)"

definition terminateCalls_next :: "World \<Rightarrow> World option" where
  "terminateCalls_next w =
     (case receiver w of
        Notifying msg (k # ks) \<Rightarrow>
          (case map_of (pending w) k of
             None \<Rightarrow> None
           | Some c \<Rightarrow>
               map_option (\<lambda>w1. w1\<lparr>receiver := Notifying msg ks\<rparr>)
                 (Call_done c (set_Error c (External msg) w)))
      | _ \<Rightarrow> None)"

definition terminateCalls_end :: "World \<Rightarrow> World option" where
  "terminateCalls_end w =
     (case receiver w of
        Notifying msg [] \<Rightarrow> Some (w\<lparr>sending := Unlocked, receiver := Exited\<rparr>)
      | _ \<Rightarrow> None)"

text \<open>A goroutine receives from a channel: the call at its head.\<close>

definition chan_recv :: "nat \<Rightarrow> World \<Rightarrow> (nat \<times> World) option" where
  "chan_recv ch w =
     (case chans w ch of
        None \<Rightarrow> None
      | Some x \<Rightarrow>
          (case buf x of
             [] \<Rightarrow> None
           | c # rest \<Rightarrow> Some (c, w\<lparr>chans := (chans w)(ch \<mapsto> x\<lparr>buf := rest\<rparr>)\<rparr>)))"

subsection \<open>The client: goroutines running together\<close>

text \<open>
  What can happen next to a client that several goroutines use: a channel is made;
  \<^verbatim>\<open>Go\<close> is called and runs up to its write; the write returns; the sender signals the
  call that failed; the receiver reads a frame; it signals the call of the frame;
  \<^verbatim>\<open>ReadHeader\<close> fails; \<^verbatim>\<open>terminateCalls\<close> starts, signals the next call, ends;
  \<^verbatim>\<open>Call\<close> takes its call from the map after a cancellation; \<^verbatim>\<open>Close\<close> is called; a
  goroutine receives from a channel.
\<close>

datatype event =
    EvMakeChan nat
  | EvGo string "string option" "string option" "nat option"
  | EvWritten "string option"
  | EvSignal
  | EvFrame Header "string option" "string + string"
  | EvComplete
  | EvHeaderError string
  | EvTerminate "64 word list"
  | EvNotify
  | EvTerminated
  | EvCancel "64 word"
  | EvClose "string option"
  | EvChanRecv nat

text \<open>
  One step; \<open>None\<close> when it cannot happen in the state (its goroutine is elsewhere, is
  blocked, or would panic). A function that takes \<^verbatim>\<open>mu\<close> waits while \<^verbatim>\<open>terminateCalls\<close>
  holds it.
\<close>

fun step :: "event \<Rightarrow> World \<Rightarrow> World option" where
  "step (EvMakeChan n) w = Some (snd (make_chan n w))"
| "step (EvGo sm args reply dn) w =
     (case Go_begin sm args reply dn w of Returns (c, w1) \<Rightarrow> Some w1 | _ \<Rightarrow> None)"
| "step (EvWritten res) w = send_written res w"
| "step EvSignal w = send_signal w"
| "step (EvFrame hdr drain decode) w = receive_frame hdr drain decode w"
| "step EvComplete w = receive_complete w"
| "step (EvHeaderError msg) w = receive_header_error msg w"
| "step (EvTerminate ks) w = terminateCalls_begin ks w"
| "step EvNotify w = terminateCalls_next w"
| "step EvTerminated w = terminateCalls_end w"
| "step (EvCancel sq) w = (if sending w = Terminating then None else Some (snd (removeCall sq w)))"
| "step (EvClose cerr) w = (if sending w = Terminating then None else Some (snd (Close cerr w)))"
| "step (EvChanRecv ch) w = map_option snd (chan_recv ch w)"

fun run :: "event list \<Rightarrow> World \<Rightarrow> World option" where
  "run [] w = Some w"
| "run (ev # evs) w = (case step ev w of None \<Rightarrow> None | Some w1 \<Rightarrow> run evs w1)"

subsection \<open>The client: what holds of every state\<close>

text \<open>
  For the statements. Of the sender: the call it is about to signal, and whether it is
  in its write. Of the receiver: the call it is about to signal, whether it is in the
  loop of \<^verbatim>\<open>terminateCalls\<close> and the keys still to come there, and whether
  \<^verbatim>\<open>terminateCalls\<close> has started.
\<close>

fun signalling :: "sending_state \<Rightarrow> nat list" where
  "signalling (Signalling c) = [c]"
| "signalling st = []"

fun is_writing :: "sending_state \<Rightarrow> bool" where
  "is_writing (Writing sq c) = True"
| "is_writing st = False"

fun completing :: "receiver_state \<Rightarrow> nat list" where
  "completing (Completing c err) = [c]"
| "completing st = []"

fun notifying :: "receiver_state \<Rightarrow> bool" where
  "notifying (Notifying msg ks) = True"
| "notifying st = False"

fun notify_keys :: "receiver_state \<Rightarrow> 64 word list" where
  "notify_keys (Notifying msg ks) = ks"
| "notify_keys st = []"

fun terminating :: "receiver_state \<Rightarrow> bool" where
  "terminating (Notifying msg ks) = True"
| "terminating Exited = True"
| "terminating st = False"

text \<open>
  The calls of the map that the receiver can still signal: all of them while it runs,
  those whose keys are still to come in \<^verbatim>\<open>terminateCalls\<close>, none once it has returned.
\<close>

definition pending_calls :: "World \<Rightarrow> nat list" where
  "pending_calls w =
     (if terminating (receiver w)
      then List.map_filter (map_of (pending w)) (notify_keys (receiver w))
      else map snd (pending w))"

text \<open>
  The calls some goroutine is about to signal or can still signal: that of a sender at
  its \<^verbatim>\<open>call.done()\<close>, that of the receiver at its own, and the calls above.
\<close>

definition to_signal :: "World \<Rightarrow> nat list" where
  "to_signal w = signalling (sending w) @ completing (receiver w) @ pending_calls w"

text \<open>The sequence number of the call at an address, if there is a call.\<close>

definition seq_of :: "World \<Rightarrow> nat \<Rightarrow> 64 word option" where
  "seq_of w c = map_option Call.Seq (calls w c)"

text \<open>The stores: a call exists exactly below the next address, and so do the calls in use.\<close>

definition inv_alloc :: "World \<Rightarrow> bool" where
  "inv_alloc w =
     ((\<forall>c. (seq_of w c \<noteq> None) = (c < ncalls w))
      \<and> (\<forall>c \<in> set (fired w) \<union> set (to_signal w) \<union> snd ` set (pending w). c < ncalls w))"

text \<open>
  The locks: \<^verbatim>\<open>shutdown\<close> is set exactly from the start of \<^verbatim>\<open>terminateCalls\<close> on, which
  holds \<^verbatim>\<open>sending\<close> exactly while it loops, over keys of the map, each once; and it is
  not set while a sender is in its write.
\<close>

definition inv_locks :: "World \<Rightarrow> bool" where
  "inv_locks w =
     (shutdown w = terminating (receiver w)
      \<and> (sending w = Terminating) = notifying (receiver w)
      \<and> distinct (notify_keys (receiver w))
      \<and> set (notify_keys (receiver w)) \<subseteq> fst ` set (pending w)
      \<and> (is_writing (sending w) \<longrightarrow> \<not> shutdown w))"

text \<open>
  Signals: no call has been signalled twice, and none that has been signalled is still
  to be signalled. The map holds each key and each call once.
\<close>

definition inv_once :: "World \<Rightarrow> bool" where
  "inv_once w =
     (distinct (fired w @ to_signal w)
      \<and> distinct (map fst (pending w))
      \<and> distinct (map snd (pending w)))"

text \<open>
  Sequence numbers: the next one is at least 1 and at most one more than the number of
  calls made; every call's number is below it; of two calls the later made has the
  greater number, unless it has none (0); and a call is in the map under its number,
  which is not 0.
\<close>

definition inv_seq :: "World \<Rightarrow> bool" where
  "inv_seq w =
     (1 \<le> unat (seq w) \<and> unat (seq w) \<le> ncalls w + 1
      \<and> (\<forall>c sq. seq_of w c = Some sq \<longrightarrow> unat sq < unat (seq w))
      \<and> (\<forall>c d sq tq. c < d \<and> seq_of w c = Some sq \<and> seq_of w d = Some tq \<and> tq \<noteq> 0
            \<longrightarrow> unat sq < unat tq)
      \<and> (\<forall>p \<in> set (pending w). fst p \<noteq> 0 \<and> seq_of w (snd p) = Some (fst p)))"

definition client_inv :: "World \<Rightarrow> bool" where
  "client_inv w = (inv_alloc w \<and> inv_locks w \<and> inv_once w \<and> inv_seq w)"

subsection \<open>The client: Call\<close>

text \<open>The error of a context that is done, and its message.\<close>

datatype ctx_error = Canceled | DeadlineExceeded

fun ctx_text :: "ctx_error \<Rightarrow> string" where
  "ctx_text Canceled = ''context canceled''"
| "ctx_text DeadlineExceeded = ''context deadline exceeded''"

text \<open>
  \<^verbatim>\<open>Call\<close> in three parts, cut where it waits. The first is
  \<^verbatim>\<open>client.Go(serviceMethod, args, reply, make(chan *Call, 1))\<close>.
\<close>

definition Call_go ::
  "string \<Rightarrow> string option \<Rightarrow> string option \<Rightarrow> string option \<Rightarrow> World \<Rightarrow> (nat \<times> World) outcome" where
  "Call_go sm args reply res w =
     (case make_chan 1 w of (ch, w1) \<Rightarrow> Go sm args reply (Some ch) res w1)"

text \<open>
  The second is the receive of \<^verbatim>\<open>call := <-client.Go(...).Done\<close>, which waits until
  the channel holds a call. The context is not looked at.
\<close>

definition Call_first_receive :: "nat \<Rightarrow> World \<Rightarrow> (nat \<times> World) option" where
  "Call_first_receive c w =
     (case calls w c of None \<Rightarrow> None | Some x \<Rightarrow> chan_recv (Done x) w)"

text \<open>
  The third is the \<^verbatim>\<open>select\<close>. \<open>ctx\<close> is the error of the context when it is done. With
  both cases ready Go chooses one of them: the second when \<open>pick\<close>. The first case
  waits for \<^verbatim>\<open>mu\<close>. The result is what \<^verbatim>\<open>Call\<close> returns, or \<open>None\<close> when no case is ready.
\<close>

definition Call_select :: "ctx_error option \<Rightarrow> bool \<Rightarrow> nat \<Rightarrow> World \<Rightarrow> (error option \<times> World) option" where
  "Call_select ctx pick c w =
     (case calls w c of
        None \<Rightarrow> None
      | Some x \<Rightarrow>
          (let from_done =
                 (case chan_recv (Done x) w of
                    None \<Rightarrow> None
                  | Some (c1, w1) \<Rightarrow>
                      (case calls w1 c1 of None \<Rightarrow> None | Some y \<Rightarrow> Some (Call.Error y, w1)))
           in case ctx of
                None \<Rightarrow> from_done
              | Some ce \<Rightarrow>
                  if from_done \<noteq> None \<and> pick then from_done
                  else if sending w = Terminating then None
                  else Some (Some (ErrorsNew (''rpc client: call failed: '' @ ctx_text ce)),
                             snd (removeCall (Call.Seq x) w))))"

text \<open>
  \<^verbatim>\<open>Call\<close> as a whole, with what the other goroutines do while it waits: \<open>evs1\<close>
  happens before its first receive goes through, \<open>evs2\<close> between that and the
  \<^verbatim>\<open>select\<close>. \<open>None\<close>: \<^verbatim>\<open>Call\<close> has not returned.
\<close>

definition Call ::
  "ctx_error option \<Rightarrow> bool \<Rightarrow> string \<Rightarrow> string option \<Rightarrow> string option \<Rightarrow> string option \<Rightarrow>
   event list \<Rightarrow> event list \<Rightarrow> World \<Rightarrow> (error option \<times> World) option" where
  "Call ctx pick sm args reply res evs1 evs2 w =
     (case Call_go sm args reply res w of
        Returns (c, w1) \<Rightarrow>
          (case run evs1 w1 of
             None \<Rightarrow> None
           | Some w2 \<Rightarrow>
               (case Call_first_receive c w2 of
                  None \<Rightarrow> None
                | Some (c1, w3) \<Rightarrow>
                    (case run evs2 w3 of
                       None \<Rightarrow> None
                     | Some w4 \<Rightarrow> Call_select ctx pick c1 w4)))
      | _ \<Rightarrow> None)"

subsection \<open>The message of an error\<close>

text \<open>A verb is an ASCII letter, told from the code of the character.\<close>

definition is_verb :: "char \<Rightarrow> bool" where
  "is_verb c = (let n = (of_char c :: nat) in (n \<in> {97..122}) \<or> (n \<in> {65..90}))"

text \<open>
  What Go's \<^verbatim>\<open>fmt\<close> makes of a format that is given no operand: the text is copied up
  to a percent sign; \<^verbatim>\<open>%%\<close> is a percent sign; a percent sign before a letter, a verb
  without its operand, is \<^verbatim>\<open>%!\<close>, the letter and \<^verbatim>\<open>(MISSING)\<close>; a percent sign that ends
  the format is \<^verbatim>\<open>%!(NOVERB)\<close>. Flags, widths and the like are not covered (\<open>None\<close>).
\<close>

fun fmt_no_operand :: "string \<Rightarrow> string option" where
  "fmt_no_operand [] = Some []"
| "fmt_no_operand [c] = (if c = CHR ''%'' then Some ''%!(NOVERB)'' else Some [c])"
| "fmt_no_operand (c # d # rest) =
     (if c \<noteq> CHR ''%'' then map_option (\<lambda>t. c # t) (fmt_no_operand (d # rest))
      else if d = CHR ''%'' then map_option (\<lambda>t. CHR ''%'' # t) (fmt_no_operand rest)
      else if is_verb d then map_option (\<lambda>t. ''%!'' @ [d] @ ''(MISSING)'' @ t) (fmt_no_operand rest)
      else None)"

text \<open>\<^verbatim>\<open>err.Error()\<close>\<close>

fun Error_text :: "error \<Rightarrow> string option" where
  "Error_text ErrShutdown = Some ''connection is shut down''"
| "Error_text (ErrorsNew msg) = Some msg"
| "Error_text (FmtErrorf f) = fmt_no_operand f"
| "Error_text (External msg) = Some msg"
| "Error_text (Panic msg) = Some msg"

subsection \<open>Broadcast: the call of one task\<close>



text \<open>
  \<^verbatim>\<open>xc.call(rpcAddr, ctx, serviceMethod, args, reply)\<close>: \<open>dialed\<close> is what
  \<^verbatim>\<open>xc.dial(rpcAddr)\<close> returned, the error or the client, and the rest is the \<^verbatim>\<open>Call\<close> of
  that client under the context. The result is the outcome of the task that called:
  the error, or the value behind \<^verbatim>\<open>reply\<close> (the call made is the one at the next free
  address of the client); \<open>None\<close> while \<^verbatim>\<open>xc.call\<close> has not returned.
\<close>

definition xc_call ::
  "error + World \<Rightarrow> ctx_error option \<Rightarrow> bool \<Rightarrow> string \<Rightarrow> string option \<Rightarrow> string option \<Rightarrow>
   string option \<Rightarrow> event list \<Rightarrow> event list \<Rightarrow> (error + string) option" where
  "xc_call dialed ctx pick sm args reply res evs1 evs2 =
     (case dialed of
        Inl err \<Rightarrow> Some (Inl err)
      | Inr w \<Rightarrow>
          (case Call ctx pick sm args reply res evs1 evs2 w of
             None \<Rightarrow> None
           | Some (Some err, w1) \<Rightarrow> Some (Inl err)
           | Some (None, w1) \<Rightarrow>
               (case calls w1 (ncalls w) of
                  None \<Rightarrow> None
                | Some x \<Rightarrow> Some (Inr (case Call.Reply x of None \<Rightarrow> [] | Some v \<Rightarrow> v)))))"


section \<open>Part II: properties\<close>

subsection \<open>parseOptions\<close>

text \<open>
  Claim C9, as amended. With no option, and whenever the first option is nil (however
  many follow), \<open>parseOptions\<close> returns the default option and changes nothing. With
  exactly one option, not nil, it sets the magic number to the default's, fills in the
  codec type only when it is empty, leaves the two timeouts alone, and returns that
  option (the caller's, updated in place). With more than one option, the first not
  nil, it returns the error and changes nothing.
\<close>

theorem parseOptions_cases:
  "parseOptions gob [] = (Inr (DefaultOption gob), [])
   \<and> parseOptions gob (None # rest) = (Inr (DefaultOption gob), None # rest)
   \<and> parseOptions gob [Some o1] =
       (Inr (o1\<lparr>Number := Number_const,
                   CodecType := (if CodecType o1 = [] then gob else CodecType o1)\<rparr>),
        [Some (o1\<lparr>Number := Number_const,
                   CodecType := (if CodecType o1 = [] then gob else CodecType o1)\<rparr>)])
   \<and> parseOptions gob (Some o1 # o2 # rest) =
       (Inl (ErrorsNew ''number of options is more than 1''), Some o1 # o2 # rest)"
  by (simp add: DefaultOption_def Let_def)

text \<open>
  The claim as stated fails: two options are more than one, yet with the first of them
  nil the result is the default option and no error.
\<close>

theorem parseOptions_nil_first_counterexample:
  "length [None, Some (DefaultOption ''json'')] > 1
   \<and> fst (parseOptions ''gob'' [None, Some (DefaultOption ''json'')]) = Inr (DefaultOption ''gob'')"
  by simp

subsection \<open>Round robin over the discovered servers\<close>

lemma smod_nonneg: "0 \<le> (i::int) \<Longrightarrow> 0 < n \<Longrightarrow> i smod n = i mod n"
  by (simp add: smod_int_alt_def sgn_if abs_if) 

lemma wrap_small: "0 \<le> i \<Longrightarrow> i < 2^63 - 1 \<Longrightarrow> wrap_int (i + 1) = i + 1"
  unfolding wrap_int_def
  by (simp add: signed_take_bit_int_eq_self)

lemma Get_round_robin:
  assumes ok: "discovery_ok d" and ne: "MultiServersDiscovery.servers d \<noteq> []"
  shows "Get rnd RoundRobinSelect d =
     (Inr (MultiServersDiscovery.servers d ! (nat (index d) mod length (MultiServersDiscovery.servers d))),
      d\<lparr>index := (index d + 1) mod int (length (MultiServersDiscovery.servers d))\<rparr>)"
proof -
  let ?xs = "MultiServersDiscovery.servers d"
  let ?n = "int (length ?xs)"
  from ne have n: "0 < ?n" by simp
  from ok have i: "0 \<le> index d" "index d < 2 ^ 63 - 1" by (simp_all add: discovery_ok_def)
  have m: "index d smod ?n = index d mod ?n" using i n by (simp add: smod_nonneg)
  have r: "0 \<le> index d mod ?n" "index d mod ?n < ?n" using n by simp_all
  have k: "nat (index d mod ?n) = nat (index d) mod length ?xs"
    using i by (simp add: nat_mod_distrib)
  have w: "wrap_int (index d + 1) smod ?n = (index d + 1) mod ?n"
    using i n by (simp add: wrap_small smod_nonneg)
  have at: "index_at ?xs (index d smod ?n) = Inr (?xs ! (nat (index d) mod length ?xs))"
    unfolding index_at_def using m r k by simp
  show ?thesis
    using n at w by (simp add: Get_def RoundRobinSelect_def RandomSelect_def Let_def)
qed

lemma Get_round_robin_ok:
  assumes ok: "discovery_ok d" and ne: "MultiServersDiscovery.servers d \<noteq> []"
  shows "discovery_ok (snd (Get rnd RoundRobinSelect d))"
proof -
  let ?n = "int (length (MultiServersDiscovery.servers d))"
  from ne have n: "0 < ?n" by simp
  have "0 \<le> (index d + 1) mod ?n" "(index d + 1) mod ?n < ?n" using n by simp_all
  moreover from ok have "?n < 2 ^ 63" by (simp add: discovery_ok_def)
  ultimately show ?thesis
    by (simp add: Get_round_robin [OF ok ne] discovery_ok_def)
qed

lemma Get_times_round_robin:
  assumes "discovery_ok d" and "MultiServersDiscovery.servers d \<noteq> []"
  shows "Get_times k d =
     (map (\<lambda>j. Inr (MultiServersDiscovery.servers d ! ((nat (index d) + j) mod length (MultiServersDiscovery.servers d)))) [0..<k],
      d\<lparr>index := (if k = 0 then index d else (index d + int k) mod int (length (MultiServersDiscovery.servers d)))\<rparr>)"
  using assms
proof (induction k arbitrary: d)
  case 0
  then show ?case by simp
next
  case (Suc k)
  let ?xs = "MultiServersDiscovery.servers d"
  let ?n = "length ?xs"
  let ?d1 = "d\<lparr>index := (index d + 1) mod int ?n\<rparr>"
  have n: "0 < ?n" using Suc.prems by simp
  have i: "0 \<le> index d" using Suc.prems by (simp add: discovery_ok_def)
  have g: "Get 0 RoundRobinSelect d = (Inr (?xs ! (nat (index d) mod ?n)), ?d1)"
    by (rule Get_round_robin [OF Suc.prems])
  have ok1: "discovery_ok ?d1"
    using Get_round_robin_ok [OF Suc.prems, of 0] g by simp
  have ne1: "MultiServersDiscovery.servers ?d1 \<noteq> []" using Suc.prems by simp
  have idx: "nat ((index d + 1) mod int ?n) = (nat (index d) + 1) mod ?n"
    using i by (simp add: nat_mod_distrib nat_add_distrib)
  have shift: "((nat (index d) + 1) mod ?n + j) mod ?n = (nat (index d) + Suc j) mod ?n" for j
    by (metis add_Suc_right add_Suc_shift mod_add_left_eq Suc_eq_plus1)
  have upt: "[0..<Suc k] = 0 # map Suc [0..<k]"
    by (simp add: upt_conv_Cons map_Suc_upt del: upt_Suc)
  have fin: "(if k = 0 then (index d + 1) mod int ?n else ((index d + 1) mod int ?n + int k) mod int ?n)
      = (index d + int (Suc k)) mod int ?n"
  proof (cases "k = 0")
    case True
    then show ?thesis by simp
  next
    case False
    have "((index d + 1) mod int ?n + int k) mod int ?n = (index d + 1 + int k) mod int ?n"
      by (rule mod_add_left_eq)
    also have "index d + 1 + int k = index d + int (Suc k)" by simp
    finally show ?thesis using False by simp
  qed
  have snd1: "?d1\<lparr>index := (if k = 0 then index ?d1 else (index ?d1 + int k) mod int (length (MultiServersDiscovery.servers ?d1)))\<rparr>
      = d\<lparr>index := (index d + int (Suc k)) mod int ?n\<rparr>"
    using fin by (cases "k = 0") (simp_all del: of_nat_Suc)
  have fst1: "map (\<lambda>j. Inr (MultiServersDiscovery.servers ?d1 ! ((nat (index ?d1) + j) mod length (MultiServersDiscovery.servers ?d1)))) [0..<k]
      = map (\<lambda>j. Inr (?xs ! ((nat (index d) + Suc j) mod ?n))) [0..<k]"
    using idx shift by simp
  have ih: "Get_times k ?d1 =
      (map (\<lambda>j. Inr (?xs ! ((nat (index d) + Suc j) mod ?n))) [0..<k],
       d\<lparr>index := (index d + int (Suc k)) mod int ?n\<rparr>)"
    using Suc.IH [OF ok1 ne1] unfolding snd1 fst1 .
  show ?case
    unfolding upt using ih g
    by (simp add: comp_def del: of_nat_Suc)
qed

lemma rotate_as_map:
  "xs \<noteq> [] \<Longrightarrow> map (\<lambda>j. xs ! ((i + j) mod length xs)) [0..<length xs] = rotate i xs"
  by (rule nth_equalityI) (simp_all add: nth_rotate)


lemma NewMultiServerDiscovery_ok:
  "0 \<le> rnd \<Longrightarrow> rnd < 2 ^ 31 - 2 \<Longrightarrow> int (length srvs) < 2 ^ 63 \<Longrightarrow>
   discovery_ok (NewMultiServerDiscovery srvs rnd)"
  by (simp add: discovery_ok_def NewMultiServerDiscovery_def)

lemma Update_ok:
  "discovery_ok d \<Longrightarrow> int (length srvs) < 2 ^ 63 \<Longrightarrow> discovery_ok (Update srvs d)"
  by (simp add: discovery_ok_def Update_def)

text \<open>
  Claim C6. In a discovery whose index is in the range the constructor and \<open>Get\<close> keep
  it in, with a list of \<open>n > 0\<close> servers, \<open>Get\<close> in round-robin mode returns
  \<open>servers[index mod n]\<close> and sets the index to \<open>(index + 1) mod n\<close>; \<open>n\<close> calls in a row
  return the list rotated by the initial offset, so each server once, and leave the
  discovery in that range. On an empty list \<open>Get\<close> returns the error of no available
  server whatever the mode, and on a mode that is neither of the two it returns the
  error of the unsupported mode.
\<close>

theorem Get_round_robin_cycle:
  "(discovery_ok d \<and> MultiServersDiscovery.servers d \<noteq> [] \<longrightarrow>
      Get rnd RoundRobinSelect d =
        (Inr (MultiServersDiscovery.servers d ! (nat (index d) mod length (MultiServersDiscovery.servers d))),
         d\<lparr>index := (index d + 1) mod int (length (MultiServersDiscovery.servers d))\<rparr>)
      \<and> fst (Get_times (length (MultiServersDiscovery.servers d)) d) =
          map Inr (rotate (nat (index d) mod length (MultiServersDiscovery.servers d)) (MultiServersDiscovery.servers d))
      \<and> discovery_ok (snd (Get_times (length (MultiServersDiscovery.servers d)) d)))
   \<and> (MultiServersDiscovery.servers d = [] \<longrightarrow>
      Get rnd mode d = (Inl (ErrorsNew ''rpc discovery: no available servers''), d))
   \<and> (MultiServersDiscovery.servers d \<noteq> [] \<and> mode \<noteq> RandomSelect \<and> mode \<noteq> RoundRobinSelect \<longrightarrow>
      Get rnd mode d = (Inl (ErrorsNew ''rpc discovery: not supported select mode''), d))"
proof (intro conjI impI)
  assume a: "discovery_ok d \<and> MultiServersDiscovery.servers d \<noteq> []"
  then have ok: "discovery_ok d" and ne: "MultiServersDiscovery.servers d \<noteq> []" by simp_all
  let ?xs = "MultiServersDiscovery.servers d"
  show "Get rnd RoundRobinSelect d =
        (Inr (?xs ! (nat (index d) mod length ?xs)), d\<lparr>index := (index d + 1) mod int (length ?xs)\<rparr>)"
    by (rule Get_round_robin [OF ok ne])
  have "fst (Get_times (length ?xs) d) = map Inr (map (\<lambda>j. ?xs ! ((nat (index d) + j) mod length ?xs)) [0..<length ?xs])"
    by (simp add: Get_times_round_robin [OF ok ne] comp_def)
  also have "\<dots> = map Inr (rotate (nat (index d)) ?xs)"
    using rotate_as_map [OF ne, of "nat (index d)"] by simp
  also have "\<dots> = map Inr (rotate (nat (index d) mod length ?xs) ?xs)"
    by (simp add: rotate_conv_mod [symmetric])
  finally show "fst (Get_times (length ?xs) d) = map Inr (rotate (nat (index d) mod length ?xs) ?xs)" .
  have n: "0 < int (length ?xs)" using ne by simp
  have lo: "0 \<le> index d mod int (length ?xs)" and hi: "index d mod int (length ?xs) < int (length ?xs)"
    using n by simp_all
  from ok have len: "int (length ?xs) < 2 ^ 63" by (simp add: discovery_ok_def)
  from hi len have hi2: "index d mod int (length ?xs) < 2 ^ 63 - 1" by linarith
  have "snd (Get_times (length ?xs) d) = d\<lparr>index := index d mod int (length ?xs)\<rparr>"
    using ne by (simp add: Get_times_round_robin [OF ok ne])
  then show "discovery_ok (snd (Get_times (length ?xs) d))"
    using lo hi2 len by (simp add: discovery_ok_def)
next
  assume "MultiServersDiscovery.servers d = []"
  then show "Get rnd mode d = (Inl (ErrorsNew ''rpc discovery: no available servers''), d)"
    by (simp add: Get_def)
next
  assume "MultiServersDiscovery.servers d \<noteq> [] \<and> mode \<noteq> RandomSelect \<and> mode \<noteq> RoundRobinSelect"
  then show "Get rnd mode d = (Inl (ErrorsNew ''rpc discovery: not supported select mode''), d)"
    by (simp add: Get_def)
qed

theorem Get_round_robin_cycle_witness:
  "discovery_ok (NewMultiServerDiscovery [''a'', ''b'', ''c''] 7)
   \<and> Get 0 RoundRobinSelect (NewMultiServerDiscovery [''a'', ''b'', ''c''] 7) =
       (Inr ''b'', NewMultiServerDiscovery [''a'', ''b'', ''c''] 2)
   \<and> fst (Get_times (length [''a'', ''b'', ''c'']) (NewMultiServerDiscovery [''a'', ''b'', ''c''] 7))
       = [Inr ''b'', Inr ''c'', Inr ''a'']
   \<and> Get 0 RoundRobinSelect (NewMultiServerDiscovery [] 7) =
       (Inl (ErrorsNew ''rpc discovery: no available servers''), NewMultiServerDiscovery [] 7)
   \<and> Get 0 5 (NewMultiServerDiscovery [''a'', ''b'', ''c''] 7) =
       (Inl (ErrorsNew ''rpc discovery: not supported select mode''), NewMultiServerDiscovery [''a'', ''b'', ''c''] 7)"
proof -
  let ?d = "NewMultiServerDiscovery [''a'', ''b'', ''c''] 7"
  have ok: "discovery_ok ?d"
    by (simp add: NewMultiServerDiscovery_ok)
  have sv: "MultiServersDiscovery.servers ?d = [''a'', ''b'', ''c'']" and ix: "index ?d = 7"
    by (simp_all add: NewMultiServerDiscovery_def)
  have ne: "MultiServersDiscovery.servers ?d \<noteq> []"
    by (simp add: sv)
  have m: "(5::int) \<noteq> RandomSelect" "(5::int) \<noteq> RoundRobinSelect"
    by (simp_all add: RandomSelect_def RoundRobinSelect_def)
  note th = Get_round_robin_cycle [of ?d 0 5]
  from th ok ne have "Get 0 RoundRobinSelect ?d =
        (Inr (MultiServersDiscovery.servers ?d ! (nat (index ?d) mod length (MultiServersDiscovery.servers ?d))),
         ?d\<lparr>index := (index ?d + 1) mod int (length (MultiServersDiscovery.servers ?d))\<rparr>)"
    by blast
  then have g1: "Get 0 RoundRobinSelect ?d = (Inr ''b'', NewMultiServerDiscovery [''a'', ''b'', ''c''] 2)"
    unfolding sv ix by (simp add: NewMultiServerDiscovery_def)
  from th ok ne have "fst (Get_times (length (MultiServersDiscovery.servers ?d)) ?d) =
          map Inr (rotate (nat (index ?d) mod length (MultiServersDiscovery.servers ?d)) (MultiServersDiscovery.servers ?d))"
    by blast
  then have g2: "fst (Get_times (length [''a'', ''b'', ''c'']) ?d) = [Inr ''b'', Inr ''c'', Inr ''a'']"
    unfolding sv ix by simp
  from th ne m have g3: "Get 0 5 ?d = (Inl (ErrorsNew ''rpc discovery: not supported select mode''), ?d)"
    by blast
  have "MultiServersDiscovery.servers (NewMultiServerDiscovery [] 7) = []"
    by (simp add: NewMultiServerDiscovery_def)
  with Get_round_robin_cycle [of "NewMultiServerDiscovery [] 7" 0 RoundRobinSelect]
  have g4: "Get 0 RoundRobinSelect (NewMultiServerDiscovery [] 7) =
       (Inl (ErrorsNew ''rpc discovery: no available servers''), NewMultiServerDiscovery [] 7)"
    by blast
  show ?thesis using ok g1 g2 g3 g4 by blast
qed

subsection \<open>The registry's list of live servers\<close>

lemma aliveServers_loop_eq:
  "distinct ks \<Longrightarrow>
   aliveServers_loop now ks r alive =
     (alive @ filter (alive_at r now) ks,
      r\<lparr>GoRegistry.servers :=
           (\<lambda>a. if a \<in> set ks \<and> \<not> alive_at r now a then None else GoRegistry.servers r a)\<rparr>)"
proof (induction ks arbitrary: r alive)
  case Nil
  then show ?case by simp
next
  case (Cons addr ks)
  from Cons.prems have d: "distinct ks" and notin: "addr \<notin> set ks" by simp_all
  show ?case
  proof (cases "GoRegistry.servers r addr")
    case None
    then have na: "\<not> alive_at r now addr" by (simp add: alive_at_def)
    have "(\<lambda>a. if a \<in> set ks \<and> \<not> alive_at r now a then None else GoRegistry.servers r a)
        = (\<lambda>a. if a \<in> set (addr # ks) \<and> \<not> alive_at r now a then None else GoRegistry.servers r a)"
      using None by (auto simp: fun_eq_iff)
    then show ?thesis using None na Cons.IH [OF d, of r alive] by simp
  next
    case (Some s)
    show ?thesis
    proof (cases "timeout r = 0 \<or> now addr < start s + timeout r")
      case True
      then have al: "alive_at r now addr" using Some by (simp add: alive_at_def)
      have "(\<lambda>a. if a \<in> set ks \<and> \<not> alive_at r now a then None else GoRegistry.servers r a)
          = (\<lambda>a. if a \<in> set (addr # ks) \<and> \<not> alive_at r now a then None else GoRegistry.servers r a)"
        using al by (auto simp: fun_eq_iff)
      then show ?thesis using Some True al Cons.IH [OF d, of r "alive @ [addr]"] by simp
    next
      case False
      then have na: "\<not> alive_at r now addr" using Some by (simp add: alive_at_def)
      let ?r1 = "r\<lparr>GoRegistry.servers := (GoRegistry.servers r)(addr := None)\<rparr>"
      have same: "alive_at ?r1 now a = alive_at r now a" if "a \<in> set ks" for a
        using that notin by (auto simp: alive_at_def split: option.splits)
      have f: "filter (alive_at ?r1 now) ks = filter (alive_at r now) ks"
        using same by (auto intro: filter_cong)
      have m: "(\<lambda>a. if a \<in> set ks \<and> \<not> alive_at ?r1 now a then None else GoRegistry.servers ?r1 a)
          = (\<lambda>a. if a \<in> set (addr # ks) \<and> \<not> alive_at r now a then None else GoRegistry.servers r a)"
        using same na by (auto simp: fun_eq_iff)
      show ?thesis using Some False na Cons.IH [OF d, of ?r1 alive] f m by simp
    qed
  qed
qed

lemma aliveServers_eq:
  assumes "distinct ks" and "set ks = dom (GoRegistry.servers r)"
  shows "aliveServers now ks r =
     (sort (filter (alive_at r now) ks),
      r\<lparr>GoRegistry.servers := GoRegistry.servers r |` {a. alive_at r now a}\<rparr>)"
proof -
  have "(\<lambda>a. if a \<in> set ks \<and> \<not> alive_at r now a then None else GoRegistry.servers r a)
      = GoRegistry.servers r |` {a. alive_at r now a}"
    using assms(2) by (auto simp: fun_eq_iff restrict_map_def alive_at_def split: option.splits)
  then show ?thesis
    by (simp add: aliveServers_def aliveServers_loop_eq [OF assms(1)])
qed

lemma alive_at_stored: "alive_at r now a \<Longrightarrow> a \<in> dom (GoRegistry.servers r)"
  by (auto simp: alive_at_def split: option.splits)

text \<open>
  Claim C5. Whatever the order in which Go ranges over the map, \<open>aliveServers\<close>
  returns exactly the stored addresses whose start time plus the timeout is after the
  clock's reading (all of them when the timeout is zero), sorted and without
  repetition; the registry it leaves holds exactly these, unchanged, every other entry
  deleted in the same call; and a GET answers 200 with the header
  \<^verbatim>\<open>X-Gorpc-Servers\<close> set to that sorted list joined by commas.
\<close>

theorem aliveServers_exact:
  assumes "distinct ks" and "set ks = dom (GoRegistry.servers r)"
  shows "set (fst (aliveServers now ks r)) = {a. alive_at r now a}
    \<and> sorted (fst (aliveServers now ks r))
    \<and> distinct (fst (aliveServers now ks r))
    \<and> GoRegistry.servers (snd (aliveServers now ks r)) = GoRegistry.servers r |` {a. alive_at r now a}
    \<and> dom (GoRegistry.servers (snd (aliveServers now ks r))) = set (fst (aliveServers now ks r))
    \<and> timeout (snd (aliveServers now ks r)) = timeout r
    \<and> ServeHTTP now ks t \<lparr>Method = ''GET'', X_Gorpc_Server = h\<rparr> r =
        (\<lparr>status = 200, X_Gorpc_Servers = Some (Join (fst (aliveServers now ks r)) '','')\<rparr>,
         snd (aliveServers now ks r))"
proof -
  note eq = aliveServers_eq [OF assms, of now]
  have s: "set (fst (aliveServers now ks r)) = {a. alive_at r now a}"
    using assms(2) alive_at_stored [of r now] by (auto simp: eq)
  have d: "dom (GoRegistry.servers r |` {a. alive_at r now a}) = {a. alive_at r now a}"
    using alive_at_stored [of r now] by auto
  show ?thesis
    using s d assms(1) by (simp add: eq ServeHTTP_def)
qed

theorem aliveServers_exact_witness:
  "distinct [''c'', ''a'', ''b'']
   \<and> set [''c'', ''a'', ''b''] = dom (GoRegistry.servers 
      (\<lparr>timeout = 5, GoRegistry.servers = [''a'' \<mapsto> \<lparr>Addr = ''a'', start = 6\<rparr>, ''b'' \<mapsto> \<lparr>Addr = ''b'', start = 7\<rparr>, ''c'' \<mapsto> \<lparr>Addr = ''c'', start = 8\<rparr>]\<rparr>))
   \<and> fst (aliveServers (\<lambda>_. 11) [''c'', ''a'', ''b''] 
      (\<lparr>timeout = 5, GoRegistry.servers = [''a'' \<mapsto> \<lparr>Addr = ''a'', start = 6\<rparr>, ''b'' \<mapsto> \<lparr>Addr = ''b'', start = 7\<rparr>, ''c'' \<mapsto> \<lparr>Addr = ''c'', start = 8\<rparr>]\<rparr>)) = [''b'', ''c'']
   \<and> dom (GoRegistry.servers (snd (aliveServers (\<lambda>_. 11) [''c'', ''a'', ''b''] 
      (\<lparr>timeout = 5, GoRegistry.servers = [''a'' \<mapsto> \<lparr>Addr = ''a'', start = 6\<rparr>, ''b'' \<mapsto> \<lparr>Addr = ''b'', start = 7\<rparr>, ''c'' \<mapsto> \<lparr>Addr = ''c'', start = 8\<rparr>]\<rparr>)))) = {''b'', ''c''}
   \<and> fst (ServeHTTP (\<lambda>_. 11) [''c'', ''a'', ''b''] 0 \<lparr>Method = ''GET'', X_Gorpc_Server = []\<rparr> 
      (\<lparr>timeout = 5, GoRegistry.servers = [''a'' \<mapsto> \<lparr>Addr = ''a'', start = 6\<rparr>, ''b'' \<mapsto> \<lparr>Addr = ''b'', start = 7\<rparr>, ''c'' \<mapsto> \<lparr>Addr = ''c'', start = 8\<rparr>]\<rparr>))
       = \<lparr>status = 200, X_Gorpc_Servers = Some ''b,c''\<rparr>"
proof -
  have h1: "distinct [''c'', ''a'', ''b'']" by simp
  have h2: "set [''c'', ''a'', ''b''] = dom (GoRegistry.servers 
      (\<lparr>timeout = 5, GoRegistry.servers = [''a'' \<mapsto> \<lparr>Addr = ''a'', start = 6\<rparr>, ''b'' \<mapsto> \<lparr>Addr = ''b'', start = 7\<rparr>, ''c'' \<mapsto> \<lparr>Addr = ''c'', start = 8\<rparr>]\<rparr>))"
    by auto
  have v: "fst (aliveServers (\<lambda>_. 11) [''c'', ''a'', ''b''] 
      (\<lparr>timeout = 5, GoRegistry.servers = [''a'' \<mapsto> \<lparr>Addr = ''a'', start = 6\<rparr>, ''b'' \<mapsto> \<lparr>Addr = ''b'', start = 7\<rparr>, ''c'' \<mapsto> \<lparr>Addr = ''c'', start = 8\<rparr>]\<rparr>)) = [''b'', ''c'']"
    by (simp add: aliveServers_def)
  note th = aliveServers_exact [OF h1 h2, of "\<lambda>_. 11" 0 "[]"]
  from th have e: "dom (GoRegistry.servers (snd (aliveServers (\<lambda>_. 11) [''c'', ''a'', ''b''] 
      (\<lparr>timeout = 5, GoRegistry.servers = [''a'' \<mapsto> \<lparr>Addr = ''a'', start = 6\<rparr>, ''b'' \<mapsto> \<lparr>Addr = ''b'', start = 7\<rparr>, ''c'' \<mapsto> \<lparr>Addr = ''c'', start = 8\<rparr>]\<rparr>))))
      = set (fst (aliveServers (\<lambda>_. 11) [''c'', ''a'', ''b''] 
      (\<lparr>timeout = 5, GoRegistry.servers = [''a'' \<mapsto> \<lparr>Addr = ''a'', start = 6\<rparr>, ''b'' \<mapsto> \<lparr>Addr = ''b'', start = 7\<rparr>, ''c'' \<mapsto> \<lparr>Addr = ''c'', start = 8\<rparr>]\<rparr>)))"
    by blast
  from th have f: "ServeHTTP (\<lambda>_. 11) [''c'', ''a'', ''b''] 0 \<lparr>Method = ''GET'', X_Gorpc_Server = []\<rparr> 
      (\<lparr>timeout = 5, GoRegistry.servers = [''a'' \<mapsto> \<lparr>Addr = ''a'', start = 6\<rparr>, ''b'' \<mapsto> \<lparr>Addr = ''b'', start = 7\<rparr>, ''c'' \<mapsto> \<lparr>Addr = ''c'', start = 8\<rparr>]\<rparr>) =
        (\<lparr>status = 200, X_Gorpc_Servers = Some (Join (fst (aliveServers (\<lambda>_. 11) [''c'', ''a'', ''b''] 
      (\<lparr>timeout = 5, GoRegistry.servers = [''a'' \<mapsto> \<lparr>Addr = ''a'', start = 6\<rparr>, ''b'' \<mapsto> \<lparr>Addr = ''b'', start = 7\<rparr>, ''c'' \<mapsto> \<lparr>Addr = ''c'', start = 8\<rparr>]\<rparr>))) '','')\<rparr>,
         snd (aliveServers (\<lambda>_. 11) [''c'', ''a'', ''b''] 
      (\<lparr>timeout = 5, GoRegistry.servers = [''a'' \<mapsto> \<lparr>Addr = ''a'', start = 6\<rparr>, ''b'' \<mapsto> \<lparr>Addr = ''b'', start = 7\<rparr>, ''c'' \<mapsto> \<lparr>Addr = ''c'', start = 8\<rparr>]\<rparr>)))"
    by blast
  show ?thesis
    unfolding e f v using h1 h2 by simp
qed

subsection \<open>Broadcast\<close>


lemma task_finish_facts:
  assumes "wg st \<noteq> 0"
  shows "\<exists>st1. task_finish res st = Some st1
    \<and> wg st1 = wg st - 1
    \<and> bc_e st1 = (case bc_e st of Some x \<Rightarrow> Some x | None \<Rightarrow> first_error [res])
    \<and> cancelled st1 = (cancelled st \<or> (bc_e st = None \<and> isl res))
    \<and> reply_writes st1 = reply_writes st @ (if replyDone st then [] else first_success [res])
    \<and> replyDone st1 = (replyDone st \<or> \<not> isl res)"
  using assms by (cases res) (auto simp: task_finish_def Let_def split: option.splits)

lemma first_error_append:
  "first_error (rs @ rs') = (case first_error rs of Some x \<Rightarrow> Some x | None \<Rightarrow> first_error rs')"
  by (induction rs rule: first_error.induct) auto

lemma first_success_Cons:
  "first_success (r # rs) = (if isl r then first_success rs else first_success [r])"
  by (cases r) auto

lemma first_error_Cons:
  "first_error (r # rs) = (case first_error [r] of Some x \<Rightarrow> Some x | None \<Rightarrow> first_error rs)"
  by (cases r) auto

lemma tasks_finish_facts:
  "length rs \<le> wg st \<Longrightarrow>
   \<exists>st1. tasks_finish rs st = Some st1
    \<and> wg st1 = wg st - length rs
    \<and> bc_e st1 = (case bc_e st of Some x \<Rightarrow> Some x | None \<Rightarrow> first_error rs)
    \<and> cancelled st1 = (cancelled st \<or> (bc_e st = None \<and> first_error rs \<noteq> None))
    \<and> reply_writes st1 = reply_writes st @ (if replyDone st then [] else first_success rs)"
proof (induction rs arbitrary: st)
  case Nil
  then show ?case by (auto split: option.splits)
next
  case (Cons r rs)
  then have "wg st \<noteq> 0" by auto
  from task_finish_facts [OF this, of r] obtain st1 where
    t: "task_finish r st = Some st1" and
    w: "wg st1 = wg st - 1" and
    e: "bc_e st1 = (case bc_e st of Some x \<Rightarrow> Some x | None \<Rightarrow> first_error [r])" and
    c: "cancelled st1 = (cancelled st \<or> (bc_e st = None \<and> isl r))" and
    rw: "reply_writes st1 = reply_writes st @ (if replyDone st then [] else first_success [r])" and
    rd: "replyDone st1 = (replyDone st \<or> \<not> isl r)"
    by blast
  from Cons.prems w have "length rs \<le> wg st1" by simp
  from Cons.IH [OF this] obtain st2 where
    t2: "tasks_finish rs st1 = Some st2" and
    w2: "wg st2 = wg st1 - length rs" and
    e2: "bc_e st2 = (case bc_e st1 of Some x \<Rightarrow> Some x | None \<Rightarrow> first_error rs)" and
    c2: "cancelled st2 = (cancelled st1 \<or> (bc_e st1 = None \<and> first_error rs \<noteq> None))" and
    rw2: "reply_writes st2 = reply_writes st1 @ (if replyDone st1 then [] else first_success rs)"
    by blast
  have "tasks_finish (r # rs) st = Some st2" using t t2 by simp
  moreover have "wg st2 = wg st - length (r # rs)" using w w2 by simp
  moreover have "bc_e st2 = (case bc_e st of Some x \<Rightarrow> Some x | None \<Rightarrow> first_error (r # rs))"
    using e e2 by (cases r) (auto split: option.splits)
  moreover have "cancelled st2 = (cancelled st \<or> (bc_e st = None \<and> first_error (r # rs) \<noteq> None))"
    using c c2 e by (cases r) (auto split: option.splits)
  moreover have "reply_writes st2 = reply_writes st @ (if replyDone st then [] else first_success (r # rs))"
    using rw rw2 rd by (cases r) auto
  ultimately show ?case by blast
qed

lemma tasks_finish_too_many:
  "wg st < length rs \<Longrightarrow> tasks_finish rs st = None"
proof (induction rs arbitrary: st)
  case Nil
  then show ?case by simp
next
  case (Cons r rs)
  show ?case
  proof (cases "wg st = 0")
    case True
    then show ?thesis by (simp add: task_finish_def)
  next
    case False
    from task_finish_facts [OF False, of r] obtain st1 where
      t: "task_finish r st = Some st1" and w: "wg st1 = wg st - 1" by blast
    with Cons.prems False have "wg st1 < length rs" by simp
    from Cons.IH [OF this] t show ?thesis by simp
  qed
qed

lemma first_success_length: "length (first_success rs) \<le> 1"
  by (induction rs rule: first_success.induct) auto

text \<open>
  What holds of \<^verbatim>\<open>Broadcast\<close> whatever the calls of its tasks return. When \<^verbatim>\<open>GetAll\<close>
  returned the servers and the tasks of \<open>rs\<close> have ended, in the order in which they
  took the lock (no more of them than servers): at most one value has been stored
  through the caller's \<^verbatim>\<open>reply\<close>, the value of the first task that succeeded (none
  when \<^verbatim>\<open>reply\<close> is nil), later ones being dropped; the error recorded is that of the
  first task that failed; \<^verbatim>\<open>cancel()\<close> has been called exactly when a task has failed,
  that is at the first failure; and \<^verbatim>\<open>Broadcast\<close> has returned exactly when every task
  has ended, with the recorded error. What \<^verbatim>\<open>cancel()\<close> does to a task that has not
  ended is the matter of the last section.
\<close>

lemma Broadcast_first_wins:
  assumes "length rs \<le> length srvs"
  shows "\<exists>st0 st. Broadcast_start (Inr srvs) reply_nil = Inr st0
    \<and> tasks_finish rs st0 = Some st
    \<and> reply_writes st = (if reply_nil then [] else first_success rs)
    \<and> length (reply_writes st) \<le> 1
    \<and> bc_e st = first_error rs
    \<and> cancelled st = (first_error rs \<noteq> None)
    \<and> Broadcast (Inr srvs) reply_nil rs =
        (if length rs = length srvs then Some (first_error rs, reply_writes st) else None)"
proof -
  define st0 where "st0 = \<lparr>bc_e = None, replyDone = reply_nil, reply_writes = [], cancelled = False,
               wg = length srvs\<rparr>"
  have s0: "Broadcast_start (Inr srvs) reply_nil = Inr st0"
    by (simp add: Broadcast_start_def st0_def)
  have f0: "bc_e st0 = None" "replyDone st0 = reply_nil" "reply_writes st0 = []"
      "cancelled st0 = False" "wg st0 = length srvs"
    by (simp_all add: st0_def)
  from assms have "length rs \<le> wg st0" by (simp add: f0)
  from tasks_finish_facts [OF this] obtain st where
    t: "tasks_finish rs st0 = Some st" and
    w: "wg st = wg st0 - length rs" and
    e: "bc_e st = (case bc_e st0 of Some x \<Rightarrow> Some x | None \<Rightarrow> first_error rs)" and
    c: "cancelled st = (cancelled st0 \<or> (bc_e st0 = None \<and> first_error rs \<noteq> None))" and
    rw: "reply_writes st = reply_writes st0 @ (if replyDone st0 then [] else first_success rs)"
    by blast
  have rw': "reply_writes st = (if reply_nil then [] else first_success rs)"
    using rw by (simp add: f0)
  have e': "bc_e st = first_error rs" using e by (simp add: f0)
  have c': "cancelled st = (first_error rs \<noteq> None)" using c by (simp add: f0)
  have len: "length (reply_writes st) \<le> 1"
    using first_success_length [of rs] by (simp add: rw')
  have w': "(wg st = 0) = (length rs = length srvs)"
    using w assms by (auto simp: f0)
  have b: "Broadcast (Inr srvs) reply_nil rs =
        (if length rs = length srvs then Some (first_error rs, reply_writes st) else None)"
    using t w' e' by (simp add: Broadcast_def s0 Broadcast_wait_def)
  show ?thesis using s0 t rw' len e' c' b by blast
qed

lemma Broadcast_GetAll_error:
  "Broadcast (Inl err) reply_nil rs = Some (Some err, [])"
  by (simp add: Broadcast_def Broadcast_start_def)

lemma Broadcast_first_wins_example:
  "length [Inr ''5'', Inl (External ''boom''), Inl (External ''late''), Inr ''6''] \<le> length [''a'', ''b'', ''c'', ''d'']
   \<and> Broadcast (Inr [''a'', ''b'', ''c'', ''d'']) False
        [Inr ''5'', Inl (External ''boom''), Inl (External ''late''), Inr ''6'']
       = Some (Some (External ''boom''), [''5''])"
proof -
  have h: "length [Inr ''5'', Inl (External ''boom''), Inl (External ''late''), Inr ''6'']
      \<le> length [''a'', ''b'', ''c'', ''d'']"
    by simp
  from Broadcast_first_wins [OF h, of False] h show ?thesis
    by auto
qed


subsection \<open>The responses to one request\<close>

lemma handle_step_coherent:
  "handle_coherent s \<Longrightarrow> handle_step replyv dur ev s = Some s1 \<Longrightarrow> handle_coherent s1"
  by (cases ev; cases "supervisor s"; cases "worker s")
     (auto simp: handle_coherent_def Let_def split: if_splits option.splits)

lemma handle_run_coherent:
  "handle_coherent s \<Longrightarrow> handle_run replyv dur evs s = Some s1 \<Longrightarrow> handle_coherent s1"
  by (induction evs arbitrary: s) (auto split: option.splits dest: handle_step_coherent)


lemma handleRequest_init_coherent: "handle_coherent (handleRequest_init hdr tmo)"
  by (simp add: handle_coherent_def handleRequest_init_def)

lemma handle_step_leaves_Select:
  "handle_step replyv dur ev s = Some s1 \<Longrightarrow> supervisor s \<noteq> Select \<Longrightarrow>
   supervisor s1 \<noteq> Select \<and> ev \<noteq> TimerFires"
  by (cases ev; cases "worker s")
     (auto simp: Let_def split: if_splits option.splits)

lemma handle_run_no_timer:
  "handle_run replyv dur evs s = Some s1 \<Longrightarrow> supervisor s \<noteq> Select \<Longrightarrow> TimerFires \<notin> set evs"
proof (induction evs arbitrary: s)
  case Nil
  then show ?case by simp
next
  case (Cons ev evs)
  from Cons.prems(1) obtain s2 where
    st: "handle_step replyv dur ev s = Some s2" and r: "handle_run replyv dur evs s2 = Some s1"
    by (auto split: option.splits)
  from handle_step_leaves_Select [OF st Cons.prems(2)] Cons.IH [OF r]
  show ?case by auto
qed

lemma handle_step_frames_due:
  assumes "handle_coherent s" and "handle_step replyv dur ev s = Some s1"
  shows "if supervisor s = Select
         then (ev = TimerFires \<longrightarrow> frames_due s1 b = 2)
            \<and> (ev \<noteq> TimerFires \<longrightarrow> supervisor s1 = Select \<and> frames_due s1 b = frames_due s b
                  \<or> supervisor s1 \<noteq> Select \<and> frames_due s1 b = 1)
         else frames_due s1 b = frames_due s b"
  using assms
  by (cases ev; cases "supervisor s"; cases "worker s")
     (auto simp: handle_coherent_def frames_due_def Let_def split: if_splits option.splits)

lemma handle_run_frames:
  "handle_coherent s \<Longrightarrow> handle_run replyv dur evs s = Some s1 \<Longrightarrow> supervisor s1 = Returned \<Longrightarrow>
   length (wire s1) = frames_due s (TimerFires \<in> set evs)"
proof (induction evs arbitrary: s)
  case Nil
  then show ?case by (simp add: frames_due_def)
next
  case (Cons ev evs)
  from Cons.prems(2) obtain s2 where
    st: "handle_step replyv dur ev s = Some s2" and r: "handle_run replyv dur evs s2 = Some s1"
    by (auto split: option.splits)
  have c2: "handle_coherent s2" by (rule handle_step_coherent [OF Cons.prems(1) st])
  have ih: "length (wire s1) = frames_due s2 (TimerFires \<in> set evs)"
    by (rule Cons.IH [OF c2 r Cons.prems(3)])
  note due = handle_step_frames_due [OF Cons.prems(1) st, of "TimerFires \<in> set evs"]
  show ?case
  proof (cases "supervisor s = Select")
    case False
    from handle_run_no_timer [OF Cons.prems(2) False] have "TimerFires \<notin> set (ev # evs)" .
    then show ?thesis using ih due False by (simp add: frames_due_def)
  next
    case True
    show ?thesis
    proof (cases "ev = TimerFires")
      case t: True
      then show ?thesis using ih due True by (simp add: frames_due_def)
    next
      case f: False
      show ?thesis
      proof (cases "supervisor s2 = Select")
        case s2: True
        then show ?thesis using ih due True f by (auto simp: frames_due_def)
      next
        case n2: False
        from handle_run_no_timer [OF r n2] have "TimerFires \<notin> set evs" .
        then show ?thesis using ih due True f n2 by (auto simp: frames_due_def)
      qed
    qed
  qed
qed

text \<open>
  Whatever the schedule, once \<^verbatim>\<open>handleRequest\<close> has returned the wire holds two frames
  when the timer fired and one frame when it did not.
\<close>

lemma handleRequest_frames:
  assumes "handle_run replyv dur evs (handleRequest_init hdr tmo) = Some s"
      and "supervisor s = Returned"
  shows "length (wire s) = (if TimerFires \<in> set evs then 2 else 1)"
proof -
  have "length (wire s) = frames_due (handleRequest_init hdr tmo) (TimerFires \<in> set evs)"
    by (rule handle_run_frames [OF handleRequest_init_coherent assms])
  moreover have "tmo = 0 \<Longrightarrow> TimerFires \<notin> set evs"
    using handle_run_no_timer [OF assms(1)] by (simp add: handleRequest_init_def)
  ultimately show ?thesis
    by (auto simp: frames_due_def handleRequest_init_def)
qed

text \<open>
  Claim C1 fails on the code. With a timeout of one second and a method that returns
  after the timer fired, the supervisor writes the timeout response and the worker,
  once the method has returned, still writes its own: two frames for the one request.
  The second carries the reply value under the header the supervisor stamped with the
  timeout error.
\<close>

theorem handleRequest_timeout_two_responses:
  "handle_run ''7'' ''1s'' [TimerFires, WriteTimeout, MethodReturns None, Called, WriteResponse, Sent]
     (handleRequest_init \<lparr>Header.ServiceMethod = ''Foo.Sleep'', Header.Seq = 1, Header.Error = []\<rparr> 1000000000)
   = Some \<lparr>req_h = \<lparr>Header.ServiceMethod = ''Foo.Sleep'', Header.Seq = 1,
                     Header.Error = ''rpc server: request handle timeout: expect within 1s''\<rparr>,
            wire = [(\<lparr>Header.ServiceMethod = ''Foo.Sleep'', Header.Seq = 1,
                      Header.Error = ''rpc server: request handle timeout: expect within 1s''\<rparr>, InvalidRequest),
                    (\<lparr>Header.ServiceMethod = ''Foo.Sleep'', Header.Seq = 1,
                      Header.Error = ''rpc server: request handle timeout: expect within 1s''\<rparr>, ReplyValue ''7'')],
            worker = WorkerExit, supervisor = Returned\<rparr>"
  by (simp add: handleRequest_init_def Let_def)

lemma handleRequest_frames_example:
  "length (wire (the (handle_run ''7'' ''1s'' [TimerFires, WriteTimeout, MethodReturns None, Called, WriteResponse, Sent]
     (handleRequest_init \<lparr>Header.ServiceMethod = ''Foo.Sleep'', Header.Seq = 1, Header.Error = []\<rparr> 1000000000)))) = 2
   \<and> length (wire (the (handle_run ''7'' ''1s'' [MethodReturns None, Called, WriteResponse, Sent]
     (handleRequest_init \<lparr>Header.ServiceMethod = ''Foo.Sleep'', Header.Seq = 1, Header.Error = []\<rparr> 1000000000)))) = 1"
proof -
  let ?i = "handleRequest_init \<lparr>Header.ServiceMethod = ''Foo.Sleep'', Header.Seq = 1, Header.Error = []\<rparr> 1000000000"
  obtain s where r: "handle_run ''7'' ''1s'' [TimerFires, WriteTimeout, MethodReturns None, Called, WriteResponse, Sent] ?i = Some s"
     and x: "supervisor s = Returned"
    by (simp add: handleRequest_init_def Let_def)
  obtain s' where r': "handle_run ''7'' ''1s'' [MethodReturns None, Called, WriteResponse, Sent] ?i = Some s'"
     and x': "supervisor s' = Returned"
    by (simp add: handleRequest_init_def Let_def)
  from handleRequest_frames [OF r x] handleRequest_frames [OF r' x'] show ?thesis
    unfolding r r' by simp
qed

subsection \<open>The client: Close, Go, receive and Call\<close>

lemmas client_defs =
  Go_begin_def send_begin_def send_written_def send_signal_def send_rest_def Go_def
  registerCall_def removeCall_def Call_done_def make_chan_def new_Call_def
  set_Seq_def set_Error_def set_Reply_def
  receive_frame_def receive_complete_def receive_header_error_def
  terminateCalls_begin_def terminateCalls_next_def terminateCalls_end_def
  chan_recv_def Close_def after_body_def

lemma step_closing:
  "step ev w = Some w1 \<Longrightarrow> closing w \<Longrightarrow> closing w1"
  by (cases ev)
     (auto simp: client_defs Let_def
           split: if_splits option.splits outcome.splits prod.splits sending_state.splits
                  receiver_state.splits list.splits sum.splits)

lemma run_closing:
  "run evs w = Some w1 \<Longrightarrow> closing w \<Longrightarrow> closing w1"
  by (induction evs arbitrary: w) (auto split: option.splits dest: step_closing)

text \<open>
  Claim C8. \<open>Close\<close> on a client that is not closing sets \<open>closing\<close>, closes the codec
  (once) and returns what the codec's close returned; on a client that is closing it
  returns the shutdown error and changes nothing. Whatever the goroutines do after a
  first \<open>Close\<close>, every later \<open>Close\<close> returns the shutdown error and changes nothing;
  the functions of the model have no panic on these paths. \<open>IsAvailable\<close> holds exactly
  when neither \<open>closing\<close> nor \<open>shutdown\<close> is set.
\<close>

theorem Close_then_shutdown_error:
  "(\<not> closing w \<longrightarrow>
      Close cerr w = (map_option External cerr,
                      w\<lparr>closing := True, cc := (cc w)\<lparr>closes := closes (cc w) + 1\<rparr>\<rparr>))
   \<and> (closing w \<longrightarrow> Close cerr w = (Some ErrShutdown, w))
   \<and> (run evs (snd (Close cerr w)) = Some w1 \<longrightarrow> Close cerr2 w1 = (Some ErrShutdown, w1))
   \<and> IsAvailable w = (\<not> closing w \<and> \<not> shutdown w)"
proof (intro conjI impI)
  assume r: "run evs (snd (Close cerr w)) = Some w1"
  have "closing (snd (Close cerr w))" by (simp add: Close_def)
  from run_closing [OF r this] show "Close cerr2 w1 = (Some ErrShutdown, w1)"
    by (simp add: Close_def)
qed (auto simp: Close_def IsAvailable_def)

theorem Close_then_shutdown_error_witness:
  "\<not> closing (NewClientCodec (DefaultOption ''gob''))
   \<and> IsAvailable (NewClientCodec (DefaultOption ''gob''))
   \<and> fst (Close None (NewClientCodec (DefaultOption ''gob''))) = None
   \<and> closing (snd (Close None (NewClientCodec (DefaultOption ''gob''))))
   \<and> closes (cc (snd (Close None (NewClientCodec (DefaultOption ''gob''))))) = 1
   \<and> \<not> IsAvailable (snd (Close None (NewClientCodec (DefaultOption ''gob''))))
   \<and> fst (Close None (the (run [EvHeaderError ''EOF'']
        (snd (Close None (NewClientCodec (DefaultOption ''gob''))))))) = Some ErrShutdown
   \<and> closes (cc (snd (Close None (the (run [EvHeaderError ''EOF'']
        (snd (Close None (NewClientCodec (DefaultOption ''gob'')))))))))  = 1"
proof -
  let ?w = "NewClientCodec (DefaultOption ''gob'')"
  have nc: "\<not> closing ?w" by (simp add: NewClientCodec_def)
  obtain w1 where r: "run [EvHeaderError ''EOF''] (snd (Close None ?w)) = Some w1"
    by (simp add: Close_def NewClientCodec_def receive_header_error_def)
  have c1: "closes (cc w1) = 1"
    using r by (auto simp: Close_def NewClientCodec_def receive_header_error_def)
  note th = Close_then_shutdown_error [of ?w None "[EvHeaderError ''EOF'']" w1 None]
  from th nc have a: "Close None ?w = (map_option External None,
                      ?w\<lparr>closing := True, cc := (cc ?w)\<lparr>closes := closes (cc ?w) + 1\<rparr>\<rparr>)"
    by blast
  from th r have b: "Close None w1 = (Some ErrShutdown, w1)" by blast
  from th have i: "IsAvailable ?w = (\<not> closing ?w \<and> \<not> shutdown ?w)" by blast
  have i2: "\<not> IsAvailable (snd (Close None ?w))"
    unfolding a by (simp add: IsAvailable_def)
  show ?thesis
    unfolding r option.sel b using nc i i2 c1 a by (simp add: NewClientCodec_def)
qed


lemma Go_nil_done_returns:
  assumes "sending w = Unlocked"
  shows "\<exists>w1. Go sm args reply None res w = Returns (ncalls w, w1)
     \<and> map_option Done (calls w1 (ncalls w)) = Some (nchans w)
     \<and> map_option cap (chans w1 (nchans w)) = Some 10
     \<and> nchans w1 = nchans w + 1
     \<and> ncalls w1 = ncalls w + 1
     \<and> sending w1 = Unlocked"
  using assms
  by (cases res; cases "closing w"; cases "shutdown w")
     (auto simp: client_defs Let_def update_conv' delete_conv')

lemma Go_nil_done_sends:
  assumes "sending w = Unlocked" and "\<not> closing w" and "\<not> shutdown w"
  shows "\<exists>w1. Go sm args reply None None w = Returns (ncalls w, w1)
     \<and> calls w1 (ncalls w) =
         Some \<lparr>Call.Seq = seq w, Call.ServiceMethod = sm, Args = args, Reply = reply,
               Call.Error = None, Done = nchans w\<rparr>
     \<and> map_of (pending w1) (seq w) = Some (ncalls w)
     \<and> seq w1 = seq w + 1
     \<and> written (cc w1) = written (cc w) @
          [(\<lparr>Header.ServiceMethod = sm, Header.Seq = seq w, Header.Error = []\<rparr>, args)]
     \<and> fired w1 = fired w"
  using assms
  by (auto simp: client_defs Let_def update_conv' delete_conv')

lemma Go_nil_done_refused:
  assumes "sending w = Unlocked" and "closing w \<or> shutdown w"
  shows "\<exists>w1. Go sm args reply None res w = Returns (ncalls w, w1)
     \<and> calls w1 (ncalls w) =
         Some \<lparr>Call.Seq = 0, Call.ServiceMethod = sm, Args = args, Reply = reply,
               Call.Error = Some ErrShutdown, Done = nchans w\<rparr>
     \<and> chans w1 (nchans w) = Some \<lparr>cap = 10, buf = [ncalls w]\<rparr>
     \<and> pending w1 = pending w
     \<and> written (cc w1) = written (cc w)
     \<and> fired w1 = fired w @ [ncalls w]"
  using assms
  by (auto simp: client_defs Let_def)

lemma Go_write_failed:
  assumes "sending w = Unlocked" and "\<not> closing w" and "\<not> shutdown w"
  shows "\<exists>w1. Go sm args reply None (Some msg) w = Returns (ncalls w, w1)
     \<and> calls w1 (ncalls w) =
         Some \<lparr>Call.Seq = seq w, Call.ServiceMethod = sm, Args = args, Reply = reply,
               Call.Error = Some (External msg), Done = nchans w\<rparr>
     \<and> chans w1 (nchans w) = Some \<lparr>cap = 10, buf = [ncalls w]\<rparr>
     \<and> map_of (pending w1) (seq w) = None
     \<and> written (cc w1) = written (cc w)
     \<and> fired w1 = fired w @ [ncalls w]"
  using assms
  by (auto simp: client_defs Let_def update_conv' delete_conv')

lemma Go_given_done_panics:
  assumes "chans w ch = Some x"
  shows "(\<exists>msg. Go sm args reply (Some ch) res w = Panics msg) = (cap x = 0)"
    and "cap x = 0 \<Longrightarrow> Go sm args reply (Some ch) res w = Panics ''rpc client: done channel is unbuffered''"
  using assms
  by (auto simp: Go_def Go_begin_def new_Call_def split: option.splits outcome.splits prod.splits)

text \<open>
  Claim C10. When \<open>Go\<close> gets a nil channel and the lock \<open>sending\<close>, it returns (it
  neither panics nor blocks): the call it returns is a new one, whose \<open>Done\<close> is a new
  channel of capacity 10. On a client that is open it has registered the call under
  the next sequence number and written the request. \<open>Go\<close> panics on a channel of the
  caller exactly when the capacity of this channel is zero.
\<close>

theorem Go_nil_done:
  "(sending w = Unlocked \<longrightarrow>
      (\<exists>w1. Go sm args reply None res w = Returns (ncalls w, w1)
         \<and> map_option Done (calls w1 (ncalls w)) = Some (nchans w)
         \<and> map_option cap (chans w1 (nchans w)) = Some 10
         \<and> nchans w1 = nchans w + 1))
   \<and> (sending w = Unlocked \<and> \<not> closing w \<and> \<not> shutdown w \<longrightarrow>
      (\<exists>w1. Go sm args reply None None w = Returns (ncalls w, w1)
         \<and> map_of (pending w1) (seq w) = Some (ncalls w)
         \<and> map_option Call.Seq (calls w1 (ncalls w)) = Some (seq w)
         \<and> written (cc w1) = written (cc w) @
              [(\<lparr>Header.ServiceMethod = sm, Header.Seq = seq w, Header.Error = []\<rparr>, args)]))
   \<and> (chans w ch = Some x \<longrightarrow>
      (\<exists>msg. Go sm args reply (Some ch) res w = Panics msg) = (cap x = 0))"
proof (intro conjI impI)
  assume "sending w = Unlocked"
  from Go_nil_done_returns [OF this, of sm args reply res]
  show "\<exists>w1. Go sm args reply None res w = Returns (ncalls w, w1)
         \<and> map_option Done (calls w1 (ncalls w)) = Some (nchans w)
         \<and> map_option cap (chans w1 (nchans w)) = Some 10
         \<and> nchans w1 = nchans w + 1"
    by blast
next
  assume "sending w = Unlocked \<and> \<not> closing w \<and> \<not> shutdown w"
  then have a: "sending w = Unlocked" "\<not> closing w" "\<not> shutdown w" by simp_all
  from Go_nil_done_sends [OF a, of sm args reply] obtain w1 where
    "Go sm args reply None None w = Returns (ncalls w, w1)"
    "calls w1 (ncalls w) =
         Some \<lparr>Call.Seq = seq w, Call.ServiceMethod = sm, Args = args, Reply = reply,
               Call.Error = None, Done = nchans w\<rparr>"
    "map_of (pending w1) (seq w) = Some (ncalls w)"
    "written (cc w1) = written (cc w) @
          [(\<lparr>Header.ServiceMethod = sm, Header.Seq = seq w, Header.Error = []\<rparr>, args)]"
    by blast
  then show "\<exists>w1. Go sm args reply None None w = Returns (ncalls w, w1)
         \<and> map_of (pending w1) (seq w) = Some (ncalls w)
         \<and> map_option Call.Seq (calls w1 (ncalls w)) = Some (seq w)
         \<and> written (cc w1) = written (cc w) @
              [(\<lparr>Header.ServiceMethod = sm, Header.Seq = seq w, Header.Error = []\<rparr>, args)]"
    by simp
next
  assume "chans w ch = Some x"
  from Go_given_done_panics(1) [OF this]
  show "(\<exists>msg. Go sm args reply (Some ch) res w = Panics msg) = (cap x = 0)" .
qed


theorem Go_nil_done_witness:
  "sending (NewClientCodec (DefaultOption ''gob'')) = Unlocked
   \<and> \<not> closing (NewClientCodec (DefaultOption ''gob''))
   \<and> \<not> shutdown (NewClientCodec (DefaultOption ''gob''))
   \<and> (\<exists>w1. Go ''Foo.Sum'' (Some ''3,4'') (Some []) None None (NewClientCodec (DefaultOption ''gob''))
               = Returns (0, w1)
          \<and> map_option Done (calls w1 0) = Some 0
          \<and> map_option cap (chans w1 0) = Some 10
          \<and> map_of (pending w1) 1 = Some 0
          \<and> written (cc w1) =
               [(\<lparr>Header.ServiceMethod = ''Foo.Sum'', Header.Seq = 1, Header.Error = []\<rparr>, Some ''3,4'')])
   \<and> chans (snd (make_chan 0 (NewClientCodec (DefaultOption ''gob'')))) 0 = Some \<lparr>cap = 0, buf = []\<rparr>
   \<and> (\<exists>msg. Go ''Foo.Sum'' (Some ''3,4'') (Some []) (Some 0) None
               (snd (make_chan 0 (NewClientCodec (DefaultOption ''gob'')))) = Panics msg)"
proof -
  let ?w = "NewClientCodec (DefaultOption ''gob'')"
  let ?wc = "snd (make_chan 0 ?w)"
  have a: "sending ?w = Unlocked" "\<not> closing ?w" "\<not> shutdown ?w"
    and v: "ncalls ?w = 0" "nchans ?w = 0" "seq ?w = 1" "written (cc ?w) = []"
    by (simp_all add: NewClientCodec_def)
  have c: "chans ?wc 0 = Some \<lparr>cap = 0, buf = []\<rparr>"
    by (simp add: make_chan_def NewClientCodec_def)
  note th = Go_nil_done [of ?w "''Foo.Sum''" "Some ''3,4''" "Some []" None]
  from th a obtain w1 where
    g1: "Go ''Foo.Sum'' (Some ''3,4'') (Some []) None None ?w = Returns (ncalls ?w, w1)"
    and g2: "map_option Done (calls w1 (ncalls ?w)) = Some (nchans ?w)"
    and g3: "map_option cap (chans w1 (nchans ?w)) = Some 10"
    by blast
  from th a obtain w2 where
    h1: "Go ''Foo.Sum'' (Some ''3,4'') (Some []) None None ?w = Returns (ncalls ?w, w2)"
    and h2: "map_of (pending w2) (seq ?w) = Some (ncalls ?w)"
    and h3: "written (cc w2) = written (cc ?w) @
              [(\<lparr>Header.ServiceMethod = ''Foo.Sum'', Header.Seq = seq ?w, Header.Error = []\<rparr>, Some ''3,4'')]"
    by blast
  from g1 h1 have same: "w2 = w1" by simp
  have first: "\<exists>w1. Go ''Foo.Sum'' (Some ''3,4'') (Some []) None None ?w = Returns (0, w1)
          \<and> map_option Done (calls w1 0) = Some 0
          \<and> map_option cap (chans w1 0) = Some 10
          \<and> map_of (pending w1) 1 = Some 0
          \<and> written (cc w1) =
               [(\<lparr>Header.ServiceMethod = ''Foo.Sum'', Header.Seq = 1, Header.Error = []\<rparr>, Some ''3,4'')]"
    using g1 g2 g3 h2 h3 unfolding same v by auto
  from Go_nil_done [of ?wc "''Foo.Sum''" "Some ''3,4''" "Some []" None 0 "\<lparr>cap = 0, buf = []\<rparr>"] c
  have second: "\<exists>msg. Go ''Foo.Sum'' (Some ''3,4'') (Some []) (Some 0) None ?wc = Panics msg"
    by simp
  show ?thesis using a first c second by blast
qed

lemma fmt_no_operand_plain:
  "CHR ''%'' \<notin> set f \<Longrightarrow> fmt_no_operand f = Some f"
  by (induction f rule: fmt_no_operand.induct) auto

lemma receive_frame_unknown_seq:
  assumes "receiver w = Reading" and "sending w \<noteq> Terminating"
      and "map_of (pending w) (Header.Seq hdr) = None"
  shows "receive_frame hdr drain decode w = Some (w\<lparr>receiver := after_body drain\<rparr>)"
    and "receive_frame hdr None decode w = Some w"
proof -
  from assms(3) have "Header.Seq hdr \<notin> fst ` set (pending w)"
    by (simp add: map_of_eq_None_iff)
  then have d: "AList.delete (Header.Seq hdr) (pending w) = pending w"
    by simp
  show "receive_frame hdr drain decode w = Some (w\<lparr>receiver := after_body drain\<rparr>)"
    using assms d by (simp add: receive_frame_def removeCall_def)
  then show "receive_frame hdr None decode w = Some w"
    using assms(1) by (simp add: receive_frame_def removeCall_def d assms after_body_def)
qed


lemma receive_frame_error_header:
  assumes "receiver w = Reading" and "sending w \<noteq> Terminating"
      and "map_of (pending w) (Header.Seq hdr) = Some c" and "Header.Error hdr \<noteq> []"
  shows "receive_frame hdr drain decode w =
     Some ((set_Error c (FmtErrorf (Header.Error hdr))
              (w\<lparr>pending := AList.delete (Header.Seq hdr) (pending w)\<rparr>))\<lparr>receiver := Completing c drain\<rparr>)"
  using assms by (simp add: receive_frame_def removeCall_def)

lemma receive_complete_signals:
  assumes "receiver w = Completing c err" and "calls w c = Some x" and "chans w (Done x) = Some ch"
      and "length (buf ch) < cap ch"
  shows "receive_complete w =
     Some (w\<lparr>chans := (chans w)(Done x \<mapsto> ch\<lparr>buf := buf ch @ [c]\<rparr>), fired := fired w @ [c],
             receiver := after_body err\<rparr>)"
  using assms by (simp add: receive_complete_def Call_done_def)

text \<open>
  Claim C7 fails on the code for a header whose error holds a percent sign. The
  receiver completes the call with \<^verbatim>\<open>fmt.Errorf(h.Error)\<close>, which reads the string as a
  format: for the header error \<^verbatim>\<open>cpu at 100%\<close> the message of the call's error is
  \<^verbatim>\<open>cpu at 100%!(NOVERB)\<close>. The rest of the claim holds: a frame for a sequence number
  that is not in the map changes nothing and the loop goes on when the drain succeeded
  (\<open>receive_frame_unknown_seq\<close>), the call of a header with an error is completed with
  the error made from that header's string and the body is drained
  (\<open>receive_frame_error_header\<close>, \<open>receive_complete_signals\<close>), and a string without
  percent sign is its own message (\<open>fmt_no_operand_plain\<close>).
\<close>

theorem receive_error_header_format:
  "map_option (\<lambda>w. (fired w, map_option Call.Error (calls w 0), receiver w))
     (run [EvGo ''Foo.Sum'' (Some ''3,4'') (Some []) None, EvWritten None,
           EvFrame \<lparr>Header.ServiceMethod = ''Foo.Sum'', Header.Seq = 1, Header.Error = ''cpu at 100%''\<rparr>
             None (Inr []),
           EvComplete]
        (NewClientCodec (DefaultOption ''gob'')))
     = Some ([0], Some (Some (FmtErrorf ''cpu at 100%'')), Reading)
   \<and> Error_text (FmtErrorf ''cpu at 100%'') = Some ''cpu at 100%!(NOVERB)''
   \<and> ''cpu at 100%!(NOVERB)'' \<noteq> ''cpu at 100%''"
  by (simp add: client_defs NewClientCodec_def Let_def)

lemma Call_blocks_until_done:
  assumes "Call_go sm args reply res w = Returns (c, w1)" and "run evs1 w1 = Some w2"
      and "calls w2 c = Some x" and "chans w2 (Done x) = Some ch" and "buf ch = []"
  shows "Call ctx pick sm args reply res evs1 evs2 w = None"
  using assms by (simp add: Call_def Call_first_receive_def chan_recv_def)

text \<open>
  Claim C2 fails on the code. \<open>Call\<close> first receives from the channel of the call it
  made, without looking at the context, and only then enters the \<^verbatim>\<open>select\<close>. So with no
  response \<open>Call\<close> does not return, whatever the context; with a response and a context
  that is never done it does not return either, the one signal of the call being
  consumed already; and with a response and a context cancelled afterwards it returns
  the cancellation error for a call that succeeded.
\<close>

theorem Call_waits_for_completion:
  "Call ctx pick ''Foo.Sum'' (Some ''3,4'') (Some []) None [] [] (NewClientCodec (DefaultOption ''gob'')) = None
   \<and> Call None pick ''Foo.Sum'' (Some ''3,4'') (Some []) None
        [EvFrame \<lparr>Header.ServiceMethod = ''Foo.Sum'', Header.Seq = 1, Header.Error = []\<rparr> None (Inr ''7''),
         EvComplete] []
        (NewClientCodec (DefaultOption ''gob'')) = None
   \<and> map_option fst
        (Call (Some Canceled) pick ''Foo.Sum'' (Some ''3,4'') (Some []) None
           [EvFrame \<lparr>Header.ServiceMethod = ''Foo.Sum'', Header.Seq = 1, Header.Error = []\<rparr> None (Inr ''7''),
            EvComplete] []
           (NewClientCodec (DefaultOption ''gob'')))
       = Some (Some (ErrorsNew ''rpc client: call failed: context canceled''))"
  by (simp add: Call_def Call_go_def Call_first_receive_def Call_select_def client_defs
        NewClientCodec_def Let_def)


subsection \<open>Broadcast: the tasks still running at the first error\<close>

lemma xc_call_waits_whatever_context:
  "xc_call (Inr (NewClientCodec op)) ctx pick sm args reply None [] [] = None"
  by (simp add: xc_call_def Call_def Call_go_def Call_first_receive_def client_defs
        NewClientCodec_def Let_def)



subsection \<open>The client: each call signalled once, each number given once\<close>

text \<open>Association lists: what \<^verbatim>\<open>delete\<close> and an insertion under a new key leave.\<close>

lemma alist_delete_subset: "set (AList.delete k al) \<subseteq> set al"
  by (auto simp: AList.delete_eq)

lemma alist_delete_distinct_snd:
  "distinct (map snd al) \<Longrightarrow> distinct (map snd (AList.delete k al))"
  by (simp add: AList.delete_eq distinct_map_filter)

lemma alist_delete_removes:
  assumes "distinct (map snd al)" and "map_of al k = Some v"
  shows "v \<notin> snd ` set (AList.delete k al)"
proof
  assume "v \<in> snd ` set (AList.delete k al)"
  then obtain k1 where m: "(k1, v) \<in> set al" and ne: "k1 \<noteq> k"
    by (auto simp: AList.delete_eq)
  from assms(2) have "(k, v) \<in> set al" by (rule map_of_SomeD)
  with m assms(1) have "k1 = k"
    by (metis distinct_map inj_onD prod.inject snd_conv)
  with ne show False by simp
qed

lemma alist_update_new:
  "k \<notin> fst ` set al \<Longrightarrow> AList.update k v al = al @ [(k, v)]"
  by (induction al) auto

lemma map_filter_map_of_set:
  assumes "set ks \<subseteq> fst ` set al"
  shows "set (List.map_filter (map_of al) ks) \<subseteq> snd ` set al"
  using assms
  by (induction ks) (auto simp: List.map_filter_simps split: option.splits dest: map_of_SomeD intro: rev_image_eqI)

lemma map_filter_map_of_all:
  assumes "distinct (map fst al)" and "set ks = fst ` set al"
  shows "set (List.map_filter (map_of al) ks) = snd ` set al"
proof
  show "set (List.map_filter (map_of al) ks) \<subseteq> snd ` set al"
    using assms(2) by (intro map_filter_map_of_set) simp
  show "snd ` set al \<subseteq> set (List.map_filter (map_of al) ks)"
  proof
    fix v assume "v \<in> snd ` set al"
    then obtain k where kv: "(k, v) \<in> set al" by auto
    with assms(1) have "map_of al k = Some v" by simp
    moreover from kv assms(2) have "k \<in> set ks" by force
    ultimately show "v \<in> set (List.map_filter (map_of al) ks)"
      by (auto simp: List.map_filter_def intro!: image_eqI [where x = k])
  qed
qed

lemma map_filter_map_of_distinct:
  assumes "distinct (map fst al)" and "distinct (map snd al)" and "distinct ks"
  shows "distinct (List.map_filter (map_of al) ks)"
  using assms(3)
proof (induction ks)
  case Nil
  then show ?case by (simp add: List.map_filter_simps)
next
  case (Cons k ks)
  show ?case
  proof (cases "map_of al k")
    case None
    with Cons show ?thesis by (simp add: List.map_filter_simps)
  next
    case (Some v)
    have "v \<notin> set (List.map_filter (map_of al) ks)"
    proof
      assume "v \<in> set (List.map_filter (map_of al) ks)"
      then obtain k1 where k1: "k1 \<in> set ks" "map_of al k1 = Some v"
        by (auto simp: List.map_filter_def)
      from Some k1(2) have "(k, v) \<in> set al" "(k1, v) \<in> set al"
        by (auto dest: map_of_SomeD)
      with assms(2) have "k1 = k"
        by (metis distinct_map inj_onD prod.inject snd_conv)
      with k1(1) Cons.prems show False by simp
    qed
    with Some Cons show ?thesis by (simp add: List.map_filter_simps)
  qed
qed


text \<open>What each step changes of the fields the statements are about.\<close>

lemma seq_of_update [simp]:
  "seq_of (w\<lparr>sending := a\<rparr>) = seq_of w" "seq_of (w\<lparr>receiver := b\<rparr>) = seq_of w"
  "seq_of (w\<lparr>pending := p\<rparr>) = seq_of w" "seq_of (w\<lparr>shutdown := s\<rparr>) = seq_of w"
  "seq_of (w\<lparr>closing := s\<rparr>) = seq_of w" "seq_of (w\<lparr>fired := f\<rparr>) = seq_of w"
  "seq_of (w\<lparr>chans := ch\<rparr>) = seq_of w" "seq_of (w\<lparr>nchans := n\<rparr>) = seq_of w"
  "seq_of (w\<lparr>cc := x\<rparr>) = seq_of w" "seq_of (w\<lparr>header := h\<rparr>) = seq_of w"
  "seq_of (w\<lparr>seq := q\<rparr>) = seq_of w" "seq_of (w\<lparr>ncalls := n\<rparr>) = seq_of w"
  by (simp_all add: seq_of_def fun_eq_iff)

lemma set_Error_fields [simp]:
  "pending (set_Error c err w) = pending w" "fired (set_Error c err w) = fired w"
  "receiver (set_Error c err w) = receiver w" "sending (set_Error c err w) = sending w"
  "shutdown (set_Error c err w) = shutdown w" "closing (set_Error c err w) = closing w"
  "seq (set_Error c err w) = seq w" "ncalls (set_Error c err w) = ncalls w"
  "chans (set_Error c err w) = chans w"
  "seq_of (set_Error c err w) = seq_of w"
  "map_option Done (calls (set_Error c err w) d) = map_option Done (calls w d)"
  by (auto simp: set_Error_def seq_of_def fun_eq_iff option.map_comp comp_def)

lemma set_Reply_fields [simp]:
  "pending (set_Reply c v w) = pending w" "fired (set_Reply c v w) = fired w"
  "receiver (set_Reply c v w) = receiver w" "sending (set_Reply c v w) = sending w"
  "shutdown (set_Reply c v w) = shutdown w" "closing (set_Reply c v w) = closing w"
  "seq (set_Reply c v w) = seq w" "ncalls (set_Reply c v w) = ncalls w"
  "chans (set_Reply c v w) = chans w"
  "seq_of (set_Reply c v w) = seq_of w"
  "map_option Done (calls (set_Reply c v w) d) = map_option Done (calls w d)"
  by (auto simp: set_Reply_def seq_of_def fun_eq_iff option.map_comp comp_def)

lemma Call_done_effect:
  assumes "Call_done c w = Some w1"
  shows "fired w1 = fired w @ [c] \<and> pending w1 = pending w \<and> receiver w1 = receiver w
    \<and> sending w1 = sending w \<and> shutdown w1 = shutdown w \<and> closing w1 = closing w
    \<and> seq w1 = seq w \<and> ncalls w1 = ncalls w \<and> seq_of w1 = seq_of w"
  using assms
  by (auto simp: Call_done_def seq_of_def fun_eq_iff split: option.splits if_splits)

lemma EvMakeChan_effect:
  assumes "step (EvMakeChan n) w = Some w1"
  shows "fired w1 = fired w \<and> pending w1 = pending w \<and> receiver w1 = receiver w
    \<and> sending w1 = sending w \<and> shutdown w1 = shutdown w
    \<and> seq w1 = seq w \<and> ncalls w1 = ncalls w \<and> seq_of w1 = seq_of w"
  using assms by (auto simp: make_chan_def)

lemma new_Call_send_effect:
  assumes "new_Call sm args reply ch w0 = (c, w2)" and "send_begin c w2 = Some w1"
  shows "sending w0 = Unlocked \<and> ncalls w1 = ncalls w0 + 1 \<and> receiver w1 = receiver w0
    \<and> shutdown w1 = shutdown w0 \<and> fired w1 = fired w0
    \<and> (if closing w0 \<or> shutdown w0
        then sending w1 = Signalling (ncalls w0) \<and> pending w1 = pending w0 \<and> seq w1 = seq w0
           \<and> seq_of w1 = (seq_of w0)(ncalls w0 \<mapsto> 0)
        else sending w1 = Writing (seq w0) (ncalls w0)
           \<and> pending w1 = AList.update (seq w0) (ncalls w0) (pending w0) \<and> seq w1 = seq w0 + 1
           \<and> seq_of w1 = (seq_of w0)(ncalls w0 \<mapsto> seq w0))"
  using assms
  by (auto simp: new_Call_def send_begin_def registerCall_def set_Seq_def set_Error_def
                 seq_of_def fun_eq_iff
           split: if_splits)

lemma EvGo_effect:
  assumes "step (EvGo sm args reply dn) w = Some w1"
  shows "sending w = Unlocked \<and> ncalls w1 = ncalls w + 1 \<and> receiver w1 = receiver w
    \<and> shutdown w1 = shutdown w \<and> fired w1 = fired w
    \<and> (if closing w \<or> shutdown w
        then sending w1 = Signalling (ncalls w) \<and> pending w1 = pending w \<and> seq w1 = seq w
           \<and> seq_of w1 = (seq_of w)(ncalls w \<mapsto> 0)
        else sending w1 = Writing (seq w) (ncalls w)
           \<and> pending w1 = AList.update (seq w) (ncalls w) (pending w) \<and> seq w1 = seq w + 1
           \<and> seq_of w1 = (seq_of w)(ncalls w \<mapsto> seq w))"
proof -
  from assms obtain c where g: "Go_begin sm args reply dn w = Returns (c, w1)"
    by (auto split: outcome.splits)
  show ?thesis
  proof (cases dn)
    case None
    let ?w0 = "snd (make_chan 10 w)"
    from g None obtain w2 where
      n: "new_Call sm args reply (nchans w) ?w0 = (c, w2)" and b: "send_begin c w2 = Some w1"
      by (auto simp: Go_begin_def make_chan_def split: option.splits prod.splits)
    have f: "sending ?w0 = sending w" "pending ?w0 = pending w" "receiver ?w0 = receiver w"
      "shutdown ?w0 = shutdown w" "closing ?w0 = closing w" "fired ?w0 = fired w"
      "seq ?w0 = seq w" "ncalls ?w0 = ncalls w" "seq_of ?w0 = seq_of w"
      by (auto simp: make_chan_def seq_of_def fun_eq_iff)
    from new_Call_send_effect [OF n b] show ?thesis unfolding f .
  next
    case (Some ch)
    from g Some obtain w2 where
      n: "new_Call sm args reply ch w = (c, w2)" and b: "send_begin c w2 = Some w1"
      by (auto simp: Go_begin_def split: option.splits prod.splits if_splits)
    from new_Call_send_effect [OF n b] show ?thesis .
  qed
qed

lemma EvWritten_effect:
  assumes "step (EvWritten res) w = Some w1"
  shows "\<exists>sq c. sending w = Writing sq c \<and> receiver w1 = receiver w \<and> shutdown w1 = shutdown w
    \<and> fired w1 = fired w \<and> ncalls w1 = ncalls w \<and> seq w1 = seq w \<and> seq_of w1 = seq_of w
    \<and> (case res of
          None \<Rightarrow> sending w1 = Unlocked \<and> pending w1 = pending w
        | Some msg \<Rightarrow>
            pending w1 = AList.delete sq (pending w)
            \<and> (case map_of (pending w) sq of
                  None \<Rightarrow> sending w1 = Unlocked
                | Some c1 \<Rightarrow> sending w1 = Signalling c1))"
  using assms
  by (cases "sending w"; cases res)
     (auto simp: send_written_def removeCall_def split: option.splits)

lemma EvSignal_effect:
  assumes "step EvSignal w = Some w1"
  shows "\<exists>c. sending w = Signalling c \<and> sending w1 = Unlocked \<and> fired w1 = fired w @ [c]
    \<and> pending w1 = pending w \<and> receiver w1 = receiver w \<and> shutdown w1 = shutdown w
    \<and> seq w1 = seq w \<and> ncalls w1 = ncalls w \<and> seq_of w1 = seq_of w"
  using assms
  by (cases "sending w") (auto simp: send_signal_def dest!: Call_done_effect)

lemma EvFrame_effect:
  assumes "step (EvFrame hdr drain decode) w = Some w1"
  shows "receiver w = Reading \<and> sending w \<noteq> Terminating \<and> sending w1 = sending w
    \<and> shutdown w1 = shutdown w \<and> fired w1 = fired w \<and> ncalls w1 = ncalls w \<and> seq w1 = seq w
    \<and> seq_of w1 = seq_of w \<and> pending w1 = AList.delete (Header.Seq hdr) (pending w)
    \<and> (case map_of (pending w) (Header.Seq hdr) of
          None \<Rightarrow> receiver w1 = after_body drain
        | Some c \<Rightarrow> \<exists>err. receiver w1 = Completing c err)"
  using assms
  by (cases "map_of (pending w) (Header.Seq hdr)"; cases decode)
     (auto simp: receive_frame_def removeCall_def split: if_splits)

lemma EvComplete_effect:
  assumes "step EvComplete w = Some w1"
  shows "\<exists>c err. receiver w = Completing c err \<and> receiver w1 = after_body err
    \<and> fired w1 = fired w @ [c] \<and> sending w1 = sending w
    \<and> pending w1 = pending w \<and> shutdown w1 = shutdown w
    \<and> seq w1 = seq w \<and> ncalls w1 = ncalls w \<and> seq_of w1 = seq_of w"
  using assms
  by (cases "receiver w") (auto simp: receive_complete_def dest!: Call_done_effect)

lemma EvHeaderError_effect:
  assumes "step (EvHeaderError msg) w = Some w1"
  shows "receiver w = Reading \<and> receiver w1 = Failed msg
    \<and> fired w1 = fired w \<and> sending w1 = sending w
    \<and> pending w1 = pending w \<and> shutdown w1 = shutdown w
    \<and> seq w1 = seq w \<and> ncalls w1 = ncalls w \<and> seq_of w1 = seq_of w"
  using assms
  by (auto simp: receive_header_error_def split: if_splits)

lemma EvTerminate_effect:
  assumes "step (EvTerminate ks) w = Some w1"
  shows "\<exists>msg. receiver w = Failed msg \<and> sending w = Unlocked \<and> distinct ks
    \<and> set ks = fst ` set (pending w)
    \<and> sending w1 = Terminating \<and> shutdown w1 \<and> receiver w1 = Notifying msg ks
    \<and> fired w1 = fired w \<and> pending w1 = pending w
    \<and> seq w1 = seq w \<and> ncalls w1 = ncalls w \<and> seq_of w1 = seq_of w"
  using assms
  by (cases "receiver w") (auto simp: terminateCalls_begin_def split: if_splits)

lemma EvNotify_effect:
  assumes "step EvNotify w = Some w1"
  shows "\<exists>msg k ks c. receiver w = Notifying msg (k # ks) \<and> map_of (pending w) k = Some c
    \<and> receiver w1 = Notifying msg ks \<and> fired w1 = fired w @ [c]
    \<and> sending w1 = sending w \<and> pending w1 = pending w \<and> shutdown w1 = shutdown w
    \<and> seq w1 = seq w \<and> ncalls w1 = ncalls w \<and> seq_of w1 = seq_of w"
proof -
  from assms obtain msg k ks where r: "receiver w = Notifying msg (k # ks)"
    by (cases "receiver w") (auto simp: terminateCalls_next_def split: list.splits)
  with assms obtain c w2 where c: "map_of (pending w) k = Some c"
    and d: "Call_done c (set_Error c (External msg) w) = Some w2"
    and w1: "w1 = w2\<lparr>receiver := Notifying msg ks\<rparr>"
    by (auto simp: terminateCalls_next_def split: option.splits)
  from Call_done_effect [OF d] r c w1 show ?thesis
    by (auto simp:)
qed

lemma EvTerminated_effect:
  assumes "step EvTerminated w = Some w1"
  shows "\<exists>msg. receiver w = Notifying msg [] \<and> sending w1 = Unlocked \<and> receiver w1 = Exited
    \<and> fired w1 = fired w \<and> pending w1 = pending w \<and> shutdown w1 = shutdown w
    \<and> seq w1 = seq w \<and> ncalls w1 = ncalls w \<and> seq_of w1 = seq_of w"
  using assms
  by (cases "receiver w") (auto simp: terminateCalls_end_def split: list.splits)

lemma EvCancel_effect:
  assumes "step (EvCancel sq) w = Some w1"
  shows "sending w \<noteq> Terminating \<and> pending w1 = AList.delete sq (pending w)
    \<and> fired w1 = fired w \<and> receiver w1 = receiver w
    \<and> sending w1 = sending w \<and> shutdown w1 = shutdown w
    \<and> seq w1 = seq w \<and> ncalls w1 = ncalls w \<and> seq_of w1 = seq_of w"
  using assms by (auto simp: removeCall_def split: if_splits)

lemma EvClose_effect:
  assumes "step (EvClose cerr) w = Some w1"
  shows "sending w \<noteq> Terminating \<and> pending w1 = pending w
    \<and> fired w1 = fired w \<and> receiver w1 = receiver w
    \<and> sending w1 = sending w \<and> shutdown w1 = shutdown w
    \<and> seq w1 = seq w \<and> ncalls w1 = ncalls w \<and> seq_of w1 = seq_of w"
  using assms by (auto simp: Close_def split: if_splits)

lemma EvChanRecv_effect:
  assumes "step (EvChanRecv ch) w = Some w1"
  shows "pending w1 = pending w
    \<and> fired w1 = fired w \<and> receiver w1 = receiver w
    \<and> sending w1 = sending w \<and> shutdown w1 = shutdown w
    \<and> seq w1 = seq w \<and> ncalls w1 = ncalls w \<and> seq_of w1 = seq_of w"
  using assms
  by (auto simp: chan_recv_def split: option.splits list.splits)

text \<open>
  Each step keeps what holds of every state: first the steps that change none of the
  fields above, or only the signals; then those that take a call from the map; then
  \<^verbatim>\<open>terminateCalls\<close>; then \<^verbatim>\<open>Go\<close>, which needs the bound on the number of calls.
\<close>

lemma inv_seq_keep:
  assumes "inv_seq w" and "seq w1 = seq w" and "ncalls w1 = ncalls w" and "seq_of w1 = seq_of w"
      and "set (pending w1) \<subseteq> set (pending w)"
  shows "inv_seq w1"
proof -
  from assms(5) have "\<forall>p \<in> set (pending w1). p \<in> set (pending w)" by blast
  with assms(1) show ?thesis
    unfolding inv_seq_def assms(2,3,4) by blast
qed

lemma inv_locks_simple:
  assumes "inv_locks w" and "shutdown w1 = shutdown w" and "receiver w1 = receiver w"
      and "sending w1 = sending w" and "pending w1 = pending w"
  shows "inv_locks w1"
  using assms(1) unfolding inv_locks_def assms(2-) .

lemma inv_once_simple:
  assumes "inv_once w" and "fired w1 = fired w" and "receiver w1 = receiver w"
      and "sending w1 = sending w" and "pending w1 = pending w"
  shows "inv_once w1"
  using assms(1) unfolding inv_once_def to_signal_def pending_calls_def assms(2-) .

lemma inv_alloc_simple:
  assumes "inv_alloc w" and "fired w1 = fired w" and "receiver w1 = receiver w"
      and "sending w1 = sending w" and "pending w1 = pending w"
      and "ncalls w1 = ncalls w" and "seq_of w1 = seq_of w"
  shows "inv_alloc w1"
  using assms(1) unfolding inv_alloc_def to_signal_def pending_calls_def assms(2-) .

lemma inv_simple:
  assumes "client_inv w"
      and "pending w1 = pending w \<and> fired w1 = fired w \<and> receiver w1 = receiver w
        \<and> sending w1 = sending w \<and> shutdown w1 = shutdown w
        \<and> seq w1 = seq w \<and> ncalls w1 = ncalls w \<and> seq_of w1 = seq_of w"
  shows "client_inv w1"
proof -
  from assms(2) have e: "pending w1 = pending w" "fired w1 = fired w" "receiver w1 = receiver w"
    "sending w1 = sending w" "shutdown w1 = shutdown w" "seq w1 = seq w" "ncalls w1 = ncalls w"
    "seq_of w1 = seq_of w" by simp_all
  from assms(1) have i: "inv_alloc w" "inv_locks w" "inv_once w" "inv_seq w"
    by (simp_all add: client_inv_def)
  have "inv_alloc w1" by (rule inv_alloc_simple [OF i(1) e(2,3,4,1,7,8)])
  moreover have "inv_locks w1" by (rule inv_locks_simple [OF i(2) e(5,3,4,1)])
  moreover have "inv_once w1" by (rule inv_once_simple [OF i(3) e(2,3,4,1)])
  moreover have "inv_seq w1" by (rule inv_seq_keep [OF i(4) e(6,7,8)]) (simp add: e)
  ultimately show ?thesis by (simp add: client_inv_def)
qed


lemmas inv_unfold = inv_alloc_def inv_locks_def inv_once_def inv_seq_def to_signal_def pending_calls_def

lemma inv_EvMakeChan:
  assumes "client_inv w" and "step (EvMakeChan n) w = Some w1"
  shows "client_inv w1"
  by (rule inv_simple [OF assms(1)]) (use EvMakeChan_effect [OF assms(2)] in simp)

lemma inv_EvClose:
  assumes "client_inv w" and "step (EvClose cerr) w = Some w1"
  shows "client_inv w1"
  by (rule inv_simple [OF assms(1)]) (use EvClose_effect [OF assms(2)] in simp)

lemma inv_EvChanRecv:
  assumes "client_inv w" and "step (EvChanRecv ch) w = Some w1"
  shows "client_inv w1"
  by (rule inv_simple [OF assms(1)]) (use EvChanRecv_effect [OF assms(2)] in simp)

lemma inv_EvHeaderError:
  assumes "client_inv w" and "step (EvHeaderError msg) w = Some w1"
  shows "client_inv w1"
proof -
  from EvHeaderError_effect [OF assms(2)] have e: "receiver w = Reading" "receiver w1 = Failed msg"
    "fired w1 = fired w" "sending w1 = sending w" "pending w1 = pending w" "shutdown w1 = shutdown w"
    "seq w1 = seq w" "ncalls w1 = ncalls w" "seq_of w1 = seq_of w" by simp_all
  from assms(1) have i: "inv_alloc w" "inv_locks w" "inv_once w" "inv_seq w"
    by (simp_all add: client_inv_def)
  have "inv_alloc w1" using i(1) unfolding inv_unfold e by simp
  moreover have "inv_locks w1" using i(2) unfolding inv_unfold e by simp
  moreover have "inv_once w1" using i(3) unfolding inv_unfold e by simp
  moreover have "inv_seq w1" by (rule inv_seq_keep [OF i(4) e(7,8,9)]) (simp add: e)
  ultimately show ?thesis by (simp add: client_inv_def)
qed

lemma inv_EvSignal:
  assumes "client_inv w" and "step EvSignal w = Some w1"
  shows "client_inv w1"
proof -
  from EvSignal_effect [OF assms(2)] obtain c where e: "sending w = Signalling c"
    "sending w1 = Unlocked" "fired w1 = fired w @ [c]"
    "pending w1 = pending w" "receiver w1 = receiver w" "shutdown w1 = shutdown w"
    "seq w1 = seq w" "ncalls w1 = ncalls w" "seq_of w1 = seq_of w" by blast
  from assms(1) have i: "inv_alloc w" "inv_locks w" "inv_once w" "inv_seq w"
    by (simp_all add: client_inv_def)
  have "inv_alloc w1" using i(1) unfolding inv_unfold e by simp
  moreover have "inv_locks w1" using i(2) unfolding inv_unfold e by simp
  moreover have "inv_once w1" using i(3) unfolding inv_unfold e by simp
  moreover have "inv_seq w1" by (rule inv_seq_keep [OF i(4) e(7,8,9)]) (simp add: e)
  ultimately show ?thesis by (simp add: client_inv_def)
qed

lemma inv_EvComplete:
  assumes "client_inv w" and "step EvComplete w = Some w1"
  shows "client_inv w1"
proof -
  from EvComplete_effect [OF assms(2)] obtain c err where e: "receiver w = Completing c err"
    "receiver w1 = after_body err" "fired w1 = fired w @ [c]" "sending w1 = sending w"
    "pending w1 = pending w" "shutdown w1 = shutdown w"
    "seq w1 = seq w" "ncalls w1 = ncalls w" "seq_of w1 = seq_of w" by blast
  have a: "terminating (after_body err) = False" "notifying (after_body err) = False"
    "notify_keys (after_body err) = []" "completing (after_body err) = []"
    by (cases err; simp add: after_body_def)+
  from assms(1) have i: "inv_alloc w" "inv_locks w" "inv_once w" "inv_seq w"
    by (simp_all add: client_inv_def)
  have "inv_alloc w1" using i(1) unfolding inv_unfold e a by simp
  moreover have "inv_locks w1" using i(2) unfolding inv_unfold e a by simp
  moreover have "inv_once w1" using i(3) unfolding inv_unfold e a by simp
  moreover have "inv_seq w1" by (rule inv_seq_keep [OF i(4) e(7,8,9)]) (simp add: e)
  ultimately show ?thesis by (simp add: client_inv_def)
qed

lemma inv_EvTerminated:
  assumes "client_inv w" and "step EvTerminated w = Some w1"
  shows "client_inv w1"
proof -
  from EvTerminated_effect [OF assms(2)] obtain msg where e: "receiver w = Notifying msg []"
    "sending w1 = Unlocked" "receiver w1 = Exited"
    "fired w1 = fired w" "pending w1 = pending w" "shutdown w1 = shutdown w"
    "seq w1 = seq w" "ncalls w1 = ncalls w" "seq_of w1 = seq_of w" by blast
  from assms(1) have i: "inv_alloc w" "inv_locks w" "inv_once w" "inv_seq w"
    by (simp_all add: client_inv_def)
  have "inv_alloc w1" using i(1) unfolding inv_unfold e by auto
  moreover have "inv_locks w1" using i(2) unfolding inv_unfold e by simp
  moreover have "inv_once w1" using i(3) unfolding inv_unfold e by simp
  moreover have "inv_seq w1" by (rule inv_seq_keep [OF i(4) e(7,8,9)]) (simp add: e)
  ultimately show ?thesis by (simp add: client_inv_def)
qed

lemma not_notifying [simp]: "\<not> notifying r \<Longrightarrow> notify_keys r = []"
  by (cases r) simp_all

lemma not_terminating [simp]: "\<not> terminating r \<Longrightarrow> \<not> notifying r"
  by (cases r) simp_all

lemma alist_same_value:
  assumes "distinct (map snd al)" and "(k, v) \<in> set al" and "(k1, v) \<in> set al"
  shows "k1 = k"
proof -
  from assms(1) have "inj_on snd (set al)" by (simp add: distinct_map)
  from inj_onD [OF this _ assms(3) assms(2)] show ?thesis by simp
qed

lemma alist_delete_snd_set:
  assumes "distinct (map fst al)" and "distinct (map snd al)" and "map_of al k = Some c"
  shows "snd ` set (AList.delete k al) = snd ` set al - {c}"
proof -
  have "snd ` set al - {c} \<subseteq> snd ` set (AList.delete k al)"
  proof
    fix v assume v: "v \<in> snd ` set al - {c}"
    then obtain k1 where k1: "(k1, v) \<in> set al" and ne: "v \<noteq> c" by auto
    have "k1 \<noteq> k"
    proof
      assume "k1 = k"
      with k1 assms(1) have "map_of al k = Some v" by simp
      with assms(3) ne show False by simp
    qed
    with k1 have "(k1, v) \<in> set (AList.delete k al)" by (simp add: AList.delete_eq)
    then show "v \<in> snd ` set (AList.delete k al)" by (rule rev_image_eqI) simp
  qed
  moreover have "snd ` set (AList.delete k al) \<subseteq> snd ` set al - {c}"
    using alist_delete_removes [OF assms(2,3)] alist_delete_subset [of k al] by auto
  ultimately show ?thesis by blast
qed

lemma alist_delete_absent:
  assumes "map_of al k = None"
  shows "AList.delete k al = al"
  using assms by (intro AList.delete_id) (simp add: map_of_eq_None_iff)

lemma alist_delete_snd_subset: "snd ` set (AList.delete k al) \<subseteq> snd ` set al"
  using alist_delete_subset [of k al] by auto

lemma alist_delete_fst_subset: "fst ` set (AList.delete k al) \<subseteq> fst ` set al"
  using alist_delete_subset [of k al] by auto

text \<open>The invariants from their parts, with sets.\<close>

lemma inv_alloc_sub:
  assumes "inv_alloc w" and "ncalls w1 = ncalls w" and "seq_of w1 = seq_of w"
    and "set (fired w1) \<union> set (to_signal w1) \<union> snd ` set (pending w1)
          \<subseteq> set (fired w) \<union> set (to_signal w) \<union> snd ` set (pending w)"
  shows "inv_alloc w1"
proof -
  from assms(1) have a: "\<forall>c. (seq_of w c \<noteq> None) = (c < ncalls w)"
    and b: "\<forall>c \<in> set (fired w) \<union> set (to_signal w) \<union> snd ` set (pending w). c < ncalls w"
    by (simp_all add: inv_alloc_def)
  from b assms(4) have "\<forall>c \<in> set (fired w1) \<union> set (to_signal w1) \<union> snd ` set (pending w1). c < ncalls w"
    by blast
  with a show ?thesis by (simp add: inv_alloc_def assms(2,3))
qed

lemma to_signal_running:
  assumes "\<not> terminating (receiver w)"
  shows "to_signal w = signalling (sending w) @ completing (receiver w) @ map snd (pending w)"
  using assms by (simp add: to_signal_def pending_calls_def)

lemma to_signal_set_sub:
  assumes "inv_locks w"
  shows "set (to_signal w) \<subseteq> set (signalling (sending w)) \<union> set (completing (receiver w)) \<union> snd ` set (pending w)"
proof -
  from assms have "set (notify_keys (receiver w)) \<subseteq> fst ` set (pending w)"
    by (simp add: inv_locks_def)
  from map_filter_map_of_set [OF this] show ?thesis
    by (auto simp: to_signal_def pending_calls_def)
qed

lemma distinct_sub:
  assumes "distinct (F @ S @ C @ P)" and "distinct P1" and "set P1 \<subseteq> set P"
  shows "distinct (F @ S @ C @ P1)"
  using assms by auto

lemma distinct_move:
  assumes "distinct (F @ S @ P)" and "c \<in> set P" and "distinct P1" and "set P1 = set P - {c}"
  shows "distinct (F @ S @ [c] @ P1)"
  using assms by auto

lemma distinct_move2:
  assumes "distinct (F @ C @ P)" and "c \<in> set P" and "distinct P1" and "set P1 = set P - {c}"
  shows "distinct (F @ [c] @ C @ P1)"
  using assms by auto

lemma inv_onceI:
  assumes "distinct (fired w @ to_signal w)" and "distinct (map fst (pending w))"
    and "distinct (map snd (pending w))"
  shows "inv_once w"
  using assms by (simp add: inv_once_def)

lemma inv_onceD:
  assumes "inv_once w"
  shows "distinct (fired w @ to_signal w)" and "distinct (map fst (pending w))"
    and "distinct (map snd (pending w))"
  using assms by (simp_all add: inv_once_def)

lemma pending_calls_idle:
  assumes "notify_keys (receiver w) = []"
  shows "pending_calls w = (if terminating (receiver w) then [] else map snd (pending w))"
  using assms by (simp add: pending_calls_def List.map_filter_simps)

lemma inv_locks_sub:
  assumes "inv_locks w" and "shutdown w1 = shutdown w" and "receiver w1 = receiver w"
    and "sending w1 = sending w"
    and "set (notify_keys (receiver w)) \<subseteq> fst ` set (pending w1)"
  shows "inv_locks w1"
  using assms(1,5) unfolding inv_locks_def assms(2-4) by blast

lemma inv_EvCancel:
  assumes "client_inv w" and "step (EvCancel sq) w = Some w1"
  shows "client_inv w1"
proof -
  from EvCancel_effect [OF assms(2)] have e0: "sending w \<noteq> Terminating"
    and e: "pending w1 = AList.delete sq (pending w)"
    "fired w1 = fired w" "receiver w1 = receiver w" "sending w1 = sending w" "shutdown w1 = shutdown w"
    "seq w1 = seq w" "ncalls w1 = ncalls w" "seq_of w1 = seq_of w" by simp_all
  from assms(1) have i: "inv_alloc w" "inv_locks w" "inv_once w" "inv_seq w"
    by (simp_all add: client_inv_def)
  from i(2) e0 have nn: "notify_keys (receiver w) = []"
    by (simp add: inv_locks_def)
  then have nn1: "notify_keys (receiver w1) = []" by (simp add: e)
  note o = inv_onceD [OF i(3)]
  have d1: "distinct (map fst (pending w1))"
    using o(2) by (simp add: e distinct_delete)
  have d2: "distinct (map snd (pending w1))"
    using o(3) by (simp add: e alist_delete_distinct_snd)
  have pc: "set (pending_calls w1) \<subseteq> set (pending_calls w)"
    using alist_delete_snd_subset [of sq "pending w"]
    by (simp add: pending_calls_idle [OF nn] pending_calls_idle [OF nn1] e)
  have dpc: "distinct (pending_calls w1)"
    using d2 by (simp add: pending_calls_idle [OF nn1])
  have ts: "to_signal w1 = signalling (sending w) @ completing (receiver w) @ pending_calls w1"
    by (simp add: to_signal_def e)
  have "set (to_signal w1) \<subseteq> set (to_signal w)"
    using pc by (auto simp: to_signal_def e)
  then have "inv_alloc w1"
    using alist_delete_snd_subset [of sq "pending w"]
    by (intro inv_alloc_sub [OF i(1) e(7,8)]) (auto simp: e)
  moreover have "inv_locks w1"
    by (rule inv_locks_sub [OF i(2) e(5,3,4)]) (simp add: nn)
  moreover have "inv_once w1"
  proof (rule inv_onceI [OF _ d1 d2])
    from o(1) have "distinct (fired w @ signalling (sending w) @ completing (receiver w) @ pending_calls w)"
      by (simp add: to_signal_def)
    from distinct_sub [OF this dpc pc] show "distinct (fired w1 @ to_signal w1)"
      by (simp add: ts e)
  qed
  moreover have "inv_seq w1"
    by (rule inv_seq_keep [OF i(4) e(6,7,8)]) (simp add: e alist_delete_subset)
  ultimately show ?thesis by (simp add: client_inv_def)
qed

lemma inv_locksI:
  assumes "shutdown w = terminating (receiver w)"
    and "(sending w = Terminating) = notifying (receiver w)"
    and "distinct (notify_keys (receiver w))"
    and "set (notify_keys (receiver w)) \<subseteq> fst ` set (pending w)"
    and "is_writing (sending w) \<Longrightarrow> \<not> shutdown w"
  shows "inv_locks w"
  using assms unfolding inv_locks_def by blast

lemma inv_locksD:
  assumes "inv_locks w"
  shows "shutdown w = terminating (receiver w)"
    and "(sending w = Terminating) = notifying (receiver w)"
    and "distinct (notify_keys (receiver w))"
    and "set (notify_keys (receiver w)) \<subseteq> fst ` set (pending w)"
    and "is_writing (sending w) \<Longrightarrow> \<not> shutdown w"
  using assms unfolding inv_locks_def by blast+

lemma after_body_simps [simp]:
  "terminating (after_body err) = False" "notifying (after_body err) = False"
  "notify_keys (after_body err) = []" "completing (after_body err) = []"
  by (cases err; simp add: after_body_def)+

lemma inv_EvFrame:
  assumes "client_inv w" and "step (EvFrame hdr drain decode) w = Some w1"
  shows "client_inv w1"
proof -
  let ?k = "Header.Seq hdr"
  from EvFrame_effect [OF assms(2)] have e0: "sending w \<noteq> Terminating"
    and r: "receiver w = Reading"
    and e: "pending w1 = AList.delete ?k (pending w)"
    "fired w1 = fired w" "sending w1 = sending w" "shutdown w1 = shutdown w"
    "seq w1 = seq w" "ncalls w1 = ncalls w" "seq_of w1 = seq_of w"
    and c: "case map_of (pending w) ?k of
          None \<Rightarrow> receiver w1 = after_body drain
        | Some c \<Rightarrow> \<exists>err. receiver w1 = Completing c err" by simp_all
  from assms(1) have i: "inv_alloc w" "inv_locks w" "inv_once w" "inv_seq w"
    by (simp_all add: client_inv_def)
  note o = inv_onceD [OF i(3)]
  note l = inv_locksD [OF i(2)]
  have d1: "distinct (map fst (pending w1))"
    using o(2) by (simp add: e distinct_delete)
  have d2: "distinct (map snd (pending w1))"
    using o(3) by (simp add: e alist_delete_distinct_snd)
  have sq: "inv_seq w1"
    by (rule inv_seq_keep [OF i(4) e(5,6,7)]) (simp add: e alist_delete_subset)
  have ts: "to_signal w = signalling (sending w) @ map snd (pending w)"
    by (simp add: to_signal_def pending_calls_def r)
  have nt: "\<not> terminating (receiver w1)" "\<not> notifying (receiver w1)" "notify_keys (receiver w1) = []"
    using c by (auto split: option.splits)
  have ts1: "to_signal w1 = signalling (sending w) @ completing (receiver w1) @ map snd (pending w1)"
    using nt by (simp add: to_signal_def pending_calls_def e)
  have lk: "inv_locks w1"
  proof (rule inv_locksI)
    show "shutdown w1 = terminating (receiver w1)" using l(1) nt by (simp add: e r)
    show "(sending w1 = Terminating) = notifying (receiver w1)" using e0 nt by (simp add: e)
    show "distinct (notify_keys (receiver w1))" by (simp add: nt)
    show "set (notify_keys (receiver w1)) \<subseteq> fst ` set (pending w1)" by (simp add: nt)
    show "\<not> shutdown w1" if "is_writing (sending w1)" using l(1) by (simp add: e r)
  qed
  show ?thesis
  proof (cases "map_of (pending w) ?k")
    case None
    with c have r1: "receiver w1 = after_body drain" by simp
    have p1: "pending w1 = pending w" by (simp add: e alist_delete_absent [OF None])
    have t1: "to_signal w1 = to_signal w" by (simp add: ts ts1 r1 p1)
    have "inv_alloc w1"
      by (rule inv_alloc_sub [OF i(1) e(6,7)]) (simp add: t1 p1 e)
    moreover have "inv_once w1"
      using o by (intro inv_onceI) (simp_all add: t1 p1 e)
    ultimately show ?thesis using sq lk by (simp add: client_inv_def)
  next
    case (Some c1)
    with c obtain err where r1: "receiver w1 = Completing c1 err" by auto
    have st: "snd ` set (pending w1) = snd ` set (pending w) - {c1}"
      unfolding e by (rule alist_delete_snd_set [OF o(2,3) Some])
    from Some have mem: "c1 \<in> snd ` set (pending w)"
      by (auto dest!: map_of_SomeD intro: rev_image_eqI)
    have t1: "to_signal w1 = signalling (sending w) @ [c1] @ map snd (pending w1)"
      by (simp add: ts1 r1)
    have "set (fired w1) \<union> set (to_signal w1) \<union> snd ` set (pending w1)
          \<subseteq> set (fired w) \<union> set (to_signal w) \<union> snd ` set (pending w)"
      using mem st by (auto simp: t1 ts e(2))
    then have "inv_alloc w1" by (rule inv_alloc_sub [OF i(1) e(6,7)])
    moreover have "inv_once w1"
    proof (rule inv_onceI [OF _ d1 d2])
      from o(1) have "distinct (fired w @ signalling (sending w) @ map snd (pending w))"
        by (simp add: ts)
      from distinct_move [OF this, of c1 "map snd (pending w1)"] mem d2 st
      show "distinct (fired w1 @ to_signal w1)" by (simp add: t1 e(2))
    qed
    ultimately show ?thesis using sq lk by (simp add: client_inv_def)
  qed
qed

lemma inv_EvWritten:
  assumes "client_inv w" and "step (EvWritten res) w = Some w1"
  shows "client_inv w1"
proof -
  from EvWritten_effect [OF assms(2)] obtain sq c where s: "sending w = Writing sq c"
    and e: "receiver w1 = receiver w" "shutdown w1 = shutdown w"
    "fired w1 = fired w" "ncalls w1 = ncalls w" "seq w1 = seq w" "seq_of w1 = seq_of w"
    and c: "case res of
          None \<Rightarrow> sending w1 = Unlocked \<and> pending w1 = pending w
        | Some msg \<Rightarrow>
            pending w1 = AList.delete sq (pending w)
            \<and> (case map_of (pending w) sq of
                  None \<Rightarrow> sending w1 = Unlocked
                | Some c1 \<Rightarrow> sending w1 = Signalling c1)" by blast
  from assms(1) have i: "inv_alloc w" "inv_locks w" "inv_once w" "inv_seq w"
    by (simp_all add: client_inv_def)
  note o = inv_onceD [OF i(3)]
  note l = inv_locksD [OF i(2)]
  from l(5) s have ns: "\<not> shutdown w" by simp
  with l(1) have nt: "\<not> terminating (receiver w)" by simp
  then have nn: "\<not> notifying (receiver w)" "notify_keys (receiver w) = []" by simp_all
  have ts: "to_signal w = completing (receiver w) @ map snd (pending w)"
    using nt by (simp add: to_signal_def pending_calls_def s)
  have ts1: "to_signal w1 = signalling (sending w1) @ completing (receiver w) @ map snd (pending w1)"
    using nt by (simp add: to_signal_def pending_calls_def e)
  have sub: "set (pending w1) \<subseteq> set (pending w)"
    using c alist_delete_subset [of sq "pending w"] by (auto split: option.splits)
  have s1: "sending w1 \<noteq> Terminating" "\<not> is_writing (sending w1)"
    using c by (auto split: option.splits)
  have lk: "inv_locks w1"
  proof (rule inv_locksI)
    show "shutdown w1 = terminating (receiver w1)" using l(1) by (simp add: e)
    show "(sending w1 = Terminating) = notifying (receiver w1)" using s1 nn by (simp add: e)
    show "distinct (notify_keys (receiver w1))" by (simp add: nn e)
    show "set (notify_keys (receiver w1)) \<subseteq> fst ` set (pending w1)" by (simp add: nn e)
    show "\<not> shutdown w1" if "is_writing (sending w1)" using s1 that by simp
  qed
  have sq: "inv_seq w1"
    by (rule inv_seq_keep [OF i(4) e(5,4,6) sub])
  have same: "client_inv w1" if u: "sending w1 = Unlocked" and p1: "pending w1 = pending w"
  proof -
    have t1: "to_signal w1 = to_signal w" by (simp add: ts ts1 u p1)
    have "inv_alloc w1"
      by (rule inv_alloc_sub [OF i(1) e(4,6)]) (simp add: t1 p1 e)
    moreover have "inv_once w1"
      using o by (intro inv_onceI) (simp_all add: t1 p1 e)
    ultimately show ?thesis using sq lk by (simp add: client_inv_def)
  qed
  show ?thesis
  proof (cases res)
    case None
    with c show ?thesis by (intro same) simp_all
  next
    case (Some msg)
    with c have p: "pending w1 = AList.delete sq (pending w)"
      and c2: "case map_of (pending w) sq of
                  None \<Rightarrow> sending w1 = Unlocked
                | Some c1 \<Rightarrow> sending w1 = Signalling c1" by simp_all
    show ?thesis
    proof (cases "map_of (pending w) sq")
      case None
      with c2 p show ?thesis by (intro same) (simp_all add: alist_delete_absent)
    next
      case (Some c1)
      with c2 have u: "sending w1 = Signalling c1" by simp
      have d1: "distinct (map fst (pending w1))"
        using o(2) by (simp add: p distinct_delete)
      have d2: "distinct (map snd (pending w1))"
        using o(3) by (simp add: p alist_delete_distinct_snd)
      have st: "snd ` set (pending w1) = snd ` set (pending w) - {c1}"
        unfolding p by (rule alist_delete_snd_set [OF o(2,3) Some])
      from Some have mem: "c1 \<in> snd ` set (pending w)"
        by (auto dest!: map_of_SomeD intro: rev_image_eqI)
      have t1: "to_signal w1 = [c1] @ completing (receiver w) @ map snd (pending w1)"
        by (simp add: ts1 u)
      have "set (fired w1) \<union> set (to_signal w1) \<union> snd ` set (pending w1)
            \<subseteq> set (fired w) \<union> set (to_signal w) \<union> snd ` set (pending w)"
        using mem st by (auto simp: t1 ts e(3))
      then have "inv_alloc w1" by (rule inv_alloc_sub [OF i(1) e(4,6)])
      moreover have "inv_once w1"
      proof (rule inv_onceI [OF _ d1 d2])
        from o(1) have "distinct (fired w @ completing (receiver w) @ map snd (pending w))"
          by (simp add: ts)
        from distinct_move2 [OF this, of c1 "map snd (pending w1)"] mem d2 st
        show "distinct (fired w1 @ to_signal w1)" by (simp add: t1 e(3))
      qed
      ultimately show ?thesis using sq lk by (simp add: client_inv_def)
    qed
  qed
qed

lemma inv_EvTerminate:
  assumes "client_inv w" and "step (EvTerminate ks) w = Some w1"
  shows "client_inv w1"
proof -
  from EvTerminate_effect [OF assms(2)] obtain msg where r: "receiver w = Failed msg"
    and s: "sending w = Unlocked" and dk: "distinct ks" and sk: "set ks = fst ` set (pending w)"
    and e: "sending w1 = Terminating" "shutdown w1" "receiver w1 = Notifying msg ks"
    "fired w1 = fired w" "pending w1 = pending w"
    "seq w1 = seq w" "ncalls w1 = ncalls w" "seq_of w1 = seq_of w" by blast
  from assms(1) have i: "inv_alloc w" "inv_locks w" "inv_once w" "inv_seq w"
    by (simp_all add: client_inv_def)
  note o = inv_onceD [OF i(3)]
  have ts: "to_signal w = map snd (pending w)"
    by (simp add: to_signal_def pending_calls_def s r)
  have ts1: "to_signal w1 = List.map_filter (map_of (pending w)) ks"
    by (simp add: to_signal_def pending_calls_def e)
  have st: "set (List.map_filter (map_of (pending w)) ks) = snd ` set (pending w)"
    by (rule map_filter_map_of_all [OF o(2) sk])
  have ds: "distinct (List.map_filter (map_of (pending w)) ks)"
    by (rule map_filter_map_of_distinct [OF o(2,3) dk])
  have "inv_alloc w1"
    by (rule inv_alloc_sub [OF i(1) e(7,8)]) (simp add: ts1 st ts e)
  moreover have "inv_locks w1"
    by (rule inv_locksI) (simp_all add: e dk sk)
  moreover have "inv_once w1"
  proof (rule inv_onceI)
    from o(1) have "distinct (fired w)" "set (fired w) \<inter> snd ` set (pending w) = {}"
      by (simp_all add: ts)
    then show "distinct (fired w1 @ to_signal w1)"
      using ds st by (simp add: ts1 e)
  qed (use o in \<open>simp_all add: e\<close>)
  moreover have "inv_seq w1"
    by (rule inv_seq_keep [OF i(4) e(6,7,8)]) (simp add: e)
  ultimately show ?thesis by (simp add: client_inv_def)
qed

lemma inv_EvNotify:
  assumes "client_inv w" and "step EvNotify w = Some w1"
  shows "client_inv w1"
proof -
  from EvNotify_effect [OF assms(2)] obtain msg k ks c where r: "receiver w = Notifying msg (k # ks)"
    and m: "map_of (pending w) k = Some c"
    and e: "receiver w1 = Notifying msg ks" "fired w1 = fired w @ [c]"
    "sending w1 = sending w" "pending w1 = pending w" "shutdown w1 = shutdown w"
    "seq w1 = seq w" "ncalls w1 = ncalls w" "seq_of w1 = seq_of w" by blast
  from assms(1) have i: "inv_alloc w" "inv_locks w" "inv_once w" "inv_seq w"
    by (simp_all add: client_inv_def)
  note o = inv_onceD [OF i(3)]
  note l = inv_locksD [OF i(2)]
  from l(2) r have s: "sending w = Terminating" by simp
  have ts: "to_signal w = c # List.map_filter (map_of (pending w)) ks"
    by (simp add: to_signal_def pending_calls_def s r m List.map_filter_simps)
  have ts1: "to_signal w1 = List.map_filter (map_of (pending w)) ks"
    by (simp add: to_signal_def pending_calls_def s e)
  have "inv_alloc w1"
    by (rule inv_alloc_sub [OF i(1) e(7,8)]) (auto simp: ts1 ts e)
  moreover have "inv_locks w1"
  proof (rule inv_locksI)
    show "shutdown w1 = terminating (receiver w1)" using l(1) by (simp add: e r)
    show "(sending w1 = Terminating) = notifying (receiver w1)" by (simp add: e s)
    show "distinct (notify_keys (receiver w1))" using l(3) by (simp add: e r)
    show "set (notify_keys (receiver w1)) \<subseteq> fst ` set (pending w1)" using l(4) by (simp add: e r)
    show "\<not> shutdown w1" if "is_writing (sending w1)" using that by (simp add: e s)
  qed
  moreover have "inv_once w1"
    using o by (intro inv_onceI) (simp_all add: ts ts1 e)
  moreover have "inv_seq w1"
    by (rule inv_seq_keep [OF i(4) e(6,7,8)]) (simp add: e)
  ultimately show ?thesis by (simp add: client_inv_def)
qed

lemma inv_seqD:
  assumes "inv_seq w"
  shows "1 \<le> unat (seq w)" and "unat (seq w) \<le> ncalls w + 1"
    and "\<And>c sq. seq_of w c = Some sq \<Longrightarrow> unat sq < unat (seq w)"
    and "\<And>c d sq tq. c < d \<Longrightarrow> seq_of w c = Some sq \<Longrightarrow> seq_of w d = Some tq \<Longrightarrow> tq \<noteq> 0
            \<Longrightarrow> unat sq < unat tq"
    and "\<And>p. p \<in> set (pending w) \<Longrightarrow> fst p \<noteq> 0 \<and> seq_of w (snd p) = Some (fst p)"
  using assms unfolding inv_seq_def by blast+

lemma inv_seqI:
  assumes "1 \<le> unat (seq w)" and "unat (seq w) \<le> ncalls w + 1"
    and "\<And>c sq. seq_of w c = Some sq \<Longrightarrow> unat sq < unat (seq w)"
    and "\<And>c d sq tq. c < d \<Longrightarrow> seq_of w c = Some sq \<Longrightarrow> seq_of w d = Some tq \<Longrightarrow> tq \<noteq> 0
            \<Longrightarrow> unat sq < unat tq"
    and "\<And>p. p \<in> set (pending w) \<Longrightarrow> fst p \<noteq> 0 \<and> seq_of w (snd p) = Some (fst p)"
  shows "inv_seq w"
  unfolding inv_seq_def using assms by blast

lemma inv_allocD:
  assumes "inv_alloc w"
  shows "\<And>c. (seq_of w c \<noteq> None) = (c < ncalls w)"
    and "\<And>c. c \<in> set (fired w) \<Longrightarrow> c < ncalls w"
    and "\<And>c. c \<in> set (to_signal w) \<Longrightarrow> c < ncalls w"
    and "\<And>p. p \<in> set (pending w) \<Longrightarrow> snd p < ncalls w"
  using assms unfolding inv_alloc_def by auto

lemma inv_allocI:
  assumes "\<And>c. (seq_of w c \<noteq> None) = (c < ncalls w)"
    and "\<And>c. c \<in> set (fired w) \<Longrightarrow> c < ncalls w"
    and "\<And>c. c \<in> set (to_signal w) \<Longrightarrow> c < ncalls w"
    and "\<And>p. p \<in> set (pending w) \<Longrightarrow> snd p < ncalls w"
  shows "inv_alloc w"
  unfolding inv_alloc_def using assms by auto

lemma unat_next:
  fixes x :: "64 word"
  assumes "unat x < 2 ^ 64 - 1"
  shows "unat (x + 1) = unat x + 1"
proof -
  from assms have "unat x + unat (1 :: 64 word) < 2 ^ LENGTH(64)" by simp
  then have "unat (x + 1) = unat x + unat (1 :: 64 word)" by (simp only: unat_add_lem)
  then show ?thesis by simp
qed

lemma inv_EvGo:
  assumes "client_inv w" and "step (EvGo sm args reply dn) w = Some w1"
    and "ncalls w1 < 2 ^ 64 - 1"
  shows "client_inv w1"
proof -
  let ?n = "ncalls w"
  from EvGo_effect [OF assms(2)] have s: "sending w = Unlocked"
    and e: "ncalls w1 = ?n + 1" "receiver w1 = receiver w" "shutdown w1 = shutdown w"
      "fired w1 = fired w"
    and c: "if closing w \<or> shutdown w
        then sending w1 = Signalling ?n \<and> pending w1 = pending w \<and> seq w1 = seq w
           \<and> seq_of w1 = (seq_of w)(?n \<mapsto> 0)
        else sending w1 = Writing (seq w) ?n
           \<and> pending w1 = AList.update (seq w) ?n (pending w) \<and> seq w1 = seq w + 1
           \<and> seq_of w1 = (seq_of w)(?n \<mapsto> seq w)" by simp_all
  from assms(1) have i: "inv_alloc w" "inv_locks w" "inv_once w" "inv_seq w"
    by (simp_all add: client_inv_def)
  note o = inv_onceD [OF i(3)]
  note l = inv_locksD [OF i(2)]
  note a = inv_allocD [OF i(1)]
  note q = inv_seqD [OF i(4)]
  from l(2) s have nn: "\<not> notifying (receiver w)" by simp
  then have nk: "notify_keys (receiver w) = []" by simp
  have fresh_f: "?n \<notin> set (fired w)" using a(2) [of ?n] by auto
  have fresh_t: "?n \<notin> set (to_signal w)" using a(3) [of ?n] by auto
  have fresh_p: "?n \<notin> snd ` set (pending w)" using a(4) by fastforce
  have none_n: "seq_of w ?n = None" using a(1) [of ?n] by simp
  have ts: "to_signal w = completing (receiver w) @ pending_calls w"
    by (simp add: to_signal_def s)
  show ?thesis
  proof (cases "closing w \<or> shutdown w")
    case True
    with c have d: "sending w1 = Signalling ?n" "pending w1 = pending w" "seq w1 = seq w"
      "seq_of w1 = (seq_of w)(?n \<mapsto> 0)" by simp_all
    have pc: "pending_calls w1 = pending_calls w" by (simp add: pending_calls_def e d)
    have ts1: "to_signal w1 = ?n # to_signal w"
      by (simp add: to_signal_def pc e d s)
    have "inv_alloc w1"
    proof (rule inv_allocI)
      show "(seq_of w1 c \<noteq> None) = (c < ncalls w1)" for c
        using a(1) [of c] by (auto simp: d e)
      show "c < ncalls w1" if "c \<in> set (fired w1)" for c
        using a(2) [of c] that by (simp add: e)
      show "c < ncalls w1" if "c \<in> set (to_signal w1)" for c
        using a(3) [of c] that by (auto simp: e ts1)
      show "snd p < ncalls w1" if "p \<in> set (pending w1)" for p
        using a(4) [of p] that by (simp add: e d)
    qed
    moreover have "inv_locks w1"
    proof (rule inv_locksI)
      show "shutdown w1 = terminating (receiver w1)" using l(1) by (simp add: e)
      show "(sending w1 = Terminating) = notifying (receiver w1)" using nn by (simp add: e d)
      show "distinct (notify_keys (receiver w1))" by (simp add: nk e)
      show "set (notify_keys (receiver w1)) \<subseteq> fst ` set (pending w1)" by (simp add: nk e)
      show "\<not> shutdown w1" if "is_writing (sending w1)" using that by (simp add: d)
    qed
    moreover have "inv_once w1"
      using o fresh_f fresh_t by (intro inv_onceI) (simp_all add: ts1 e d)
    moreover have "inv_seq w1"
    proof (rule inv_seqI)
      show "1 \<le> unat (seq w1)" using q(1) by (simp add: d)
      show "unat (seq w1) \<le> ncalls w1 + 1" using q(2) by (simp add: d e)
      show "unat sq < unat (seq w1)" if "seq_of w1 c = Some sq" for c sq
        using that q(1) q(3) [of c sq] by (cases "c = ?n") (auto simp: d)
      show "unat sq < unat tq"
        if "c < d" "seq_of w1 c = Some sq" "seq_of w1 d = Some tq" "tq \<noteq> 0" for c d sq tq
      proof (cases "d = ?n")
        case True
        with that show ?thesis by (simp add: d)
      next
        case False
        show ?thesis
        proof (cases "c = ?n")
          case True
          with that a(1) [of d] False show ?thesis by (simp add: d)
        next
          case False
          with that \<open>d \<noteq> ?n\<close> q(4) [of c d sq tq] show ?thesis by (simp add: d)
        qed
      qed
      show "fst p \<noteq> 0 \<and> seq_of w1 (snd p) = Some (fst p)" if "p \<in> set (pending w1)" for p
      proof -
        from that have m: "p \<in> set (pending w)" by (simp add: d)
        from a(4) [OF m] have "snd p \<noteq> ?n" by simp
        with q(5) [OF m] show ?thesis by (simp add: d)
      qed
    qed
    ultimately show ?thesis by (simp add: client_inv_def)
  next
    case False
    with c have d: "sending w1 = Writing (seq w) ?n"
      "pending w1 = AList.update (seq w) ?n (pending w)" "seq w1 = seq w + 1"
      "seq_of w1 = (seq_of w)(?n \<mapsto> seq w)" by simp_all
    from False have ns: "\<not> shutdown w" by simp
    with l(1) have nt: "\<not> terminating (receiver w)" by simp
    have fresh_k: "seq w \<notin> fst ` set (pending w)"
    proof
      assume "seq w \<in> fst ` set (pending w)"
      then obtain p where m: "p \<in> set (pending w)" and k: "fst p = seq w" by auto
      from q(5) [OF m] have "seq_of w (snd p) = Some (fst p)" by simp
      from q(3) [OF this] k show False by simp
    qed
    have p1: "pending w1 = pending w @ [(seq w, ?n)]"
      by (simp add: d alist_update_new [OF fresh_k])
    have ts0: "to_signal w = completing (receiver w) @ map snd (pending w)"
      using nt by (simp add: ts pending_calls_def)
    have ts1: "to_signal w1 = to_signal w @ [?n]"
      using nt by (simp add: to_signal_def pending_calls_def e d(1) p1 s)
    from q(2) assms(3) have small: "unat (seq w) < 2 ^ 64 - 1" by (simp add: e)
    have nx: "unat (seq w1) = unat (seq w) + 1"
      by (simp add: d unat_next [OF small])
    have nz: "seq w \<noteq> 0" using q(1) by (auto simp: unat_eq_0)
    have "inv_alloc w1"
    proof (rule inv_allocI)
      show "(seq_of w1 c \<noteq> None) = (c < ncalls w1)" for c
        using a(1) [of c] by (auto simp: d e)
      show "c < ncalls w1" if "c \<in> set (fired w1)" for c
        using a(2) [of c] that by (simp add: e)
      show "c < ncalls w1" if "c \<in> set (to_signal w1)" for c
        using a(3) [of c] that by (auto simp: e ts1)
      show "snd p < ncalls w1" if "p \<in> set (pending w1)" for p
        using a(4) [of p] that by (auto simp: e p1)
    qed
    moreover have "inv_locks w1"
    proof (rule inv_locksI)
      show "shutdown w1 = terminating (receiver w1)" using l(1) by (simp add: e)
      show "(sending w1 = Terminating) = notifying (receiver w1)" using nn by (simp add: e d)
      show "distinct (notify_keys (receiver w1))" by (simp add: nk e)
      show "set (notify_keys (receiver w1)) \<subseteq> fst ` set (pending w1)" by (simp add: nk e)
      show "\<not> shutdown w1" if "is_writing (sending w1)" using ns by (simp add: e)
    qed
    moreover have "inv_once w1"
    proof (rule inv_onceI)
      show "distinct (fired w1 @ to_signal w1)"
        using o(1) fresh_f fresh_t by (simp add: ts1 e)
      show "distinct (map fst (pending w1))" using o(2) fresh_k by (simp add: p1)
      show "distinct (map snd (pending w1))" using o(3) fresh_p by (simp add: p1)
    qed
    moreover have "inv_seq w1"
    proof (rule inv_seqI)
      show "1 \<le> unat (seq w1)" by (simp add: nx)
      show "unat (seq w1) \<le> ncalls w1 + 1" using q(2) by (simp add: nx e)
      show "unat sq < unat (seq w1)" if "seq_of w1 c = Some sq" for c sq
        using that q(3) [of c sq] by (cases "c = ?n") (auto simp: d(4) nx)
      show "unat sq < unat tq"
        if "c < d" "seq_of w1 c = Some sq" "seq_of w1 d = Some tq" "tq \<noteq> 0" for c d sq tq
      proof (cases "d = ?n")
        case True
        with that have "seq_of w c = Some sq" "tq = seq w" by (simp_all add: d(4))
        with q(3) [of c sq] show ?thesis by simp
      next
        case False
        show ?thesis
        proof (cases "c = ?n")
          case True
          with that a(1) [of d] False show ?thesis by (simp add: d(4))
        next
          case False
          with that \<open>d \<noteq> ?n\<close> q(4) [of c d sq tq] show ?thesis by (simp add: d(4))
        qed
      qed
      show "fst p \<noteq> 0 \<and> seq_of w1 (snd p) = Some (fst p)" if "p \<in> set (pending w1)" for p
      proof (cases "p \<in> set (pending w)")
        case True
        from a(4) [OF True] have "snd p \<noteq> ?n" by simp
        with q(5) [OF True] show ?thesis by (simp add: d(4))
      next
        case False
        with that have "p = (seq w, ?n)" by (simp add: p1)
        with nz show ?thesis by (simp add: d(4))
      qed
    qed
    ultimately show ?thesis by (simp add: client_inv_def)
  qed
qed

text \<open>Every step, and so every run.\<close>

lemma step_ncalls:
  assumes "step ev w = Some w1"
  shows "ncalls w \<le> ncalls w1"
proof (cases ev)
  case (EvMakeChan n)
  with EvMakeChan_effect [of n w w1] assms show ?thesis by simp
next
  case (EvGo sm args reply dn)
  with EvGo_effect [of sm args reply dn w w1] assms show ?thesis by simp
next
  case (EvWritten res)
  with EvWritten_effect [of res w w1] assms show ?thesis by auto
next
  case EvSignal
  with EvSignal_effect [of w w1] assms show ?thesis by auto
next
  case (EvFrame hdr drain decode)
  with EvFrame_effect [of hdr drain decode w w1] assms show ?thesis by simp
next
  case EvComplete
  with EvComplete_effect [of w w1] assms show ?thesis by auto
next
  case (EvHeaderError msg)
  with EvHeaderError_effect [of msg w w1] assms show ?thesis by simp
next
  case (EvTerminate ks)
  with EvTerminate_effect [of ks w w1] assms show ?thesis by auto
next
  case EvNotify
  with EvNotify_effect [of w w1] assms show ?thesis by auto
next
  case EvTerminated
  with EvTerminated_effect [of w w1] assms show ?thesis by auto
next
  case (EvCancel sq)
  with EvCancel_effect [of sq w w1] assms show ?thesis by simp
next
  case (EvClose cerr)
  with EvClose_effect [of cerr w w1] assms show ?thesis by simp
next
  case (EvChanRecv ch)
  with EvChanRecv_effect [of ch w w1] assms show ?thesis by simp
qed

lemma run_ncalls:
  "run evs w = Some w1 \<Longrightarrow> ncalls w \<le> ncalls w1"
proof (induction evs arbitrary: w)
  case Nil
  then show ?case by simp
next
  case (Cons ev evs)
  then obtain w2 where s: "step ev w = Some w2" and r: "run evs w2 = Some w1"
    by (auto split: option.splits)
  from step_ncalls [OF s] Cons.IH [OF r] show ?case by simp
qed

lemma step_client_inv:
  assumes "client_inv w" and "step ev w = Some w1" and "ncalls w1 < 2 ^ 64 - 1"
  shows "client_inv w1"
proof (cases ev)
  case (EvMakeChan n)
  show ?thesis by (rule inv_EvMakeChan [OF assms(1) assms(2) [unfolded EvMakeChan]])
next
  case (EvGo sm args reply dn)
  show ?thesis by (rule inv_EvGo [OF assms(1) assms(2) [unfolded EvGo] assms(3)])
next
  case (EvWritten res)
  show ?thesis by (rule inv_EvWritten [OF assms(1) assms(2) [unfolded EvWritten]])
next
  case EvSignal
  show ?thesis by (rule inv_EvSignal [OF assms(1) assms(2) [unfolded EvSignal]])
next
  case (EvFrame hdr drain decode)
  show ?thesis by (rule inv_EvFrame [OF assms(1) assms(2) [unfolded EvFrame]])
next
  case EvComplete
  show ?thesis by (rule inv_EvComplete [OF assms(1) assms(2) [unfolded EvComplete]])
next
  case (EvHeaderError msg)
  show ?thesis by (rule inv_EvHeaderError [OF assms(1) assms(2) [unfolded EvHeaderError]])
next
  case (EvTerminate ks)
  show ?thesis by (rule inv_EvTerminate [OF assms(1) assms(2) [unfolded EvTerminate]])
next
  case EvNotify
  show ?thesis by (rule inv_EvNotify [OF assms(1) assms(2) [unfolded EvNotify]])
next
  case EvTerminated
  show ?thesis by (rule inv_EvTerminated [OF assms(1) assms(2) [unfolded EvTerminated]])
next
  case (EvCancel sq)
  show ?thesis by (rule inv_EvCancel [OF assms(1) assms(2) [unfolded EvCancel]])
next
  case (EvClose cerr)
  show ?thesis by (rule inv_EvClose [OF assms(1) assms(2) [unfolded EvClose]])
next
  case (EvChanRecv ch)
  show ?thesis by (rule inv_EvChanRecv [OF assms(1) assms(2) [unfolded EvChanRecv]])
qed

lemma run_client_inv:
  "client_inv w \<Longrightarrow> run evs w = Some w1 \<Longrightarrow> ncalls w1 < 2 ^ 64 - 1 \<Longrightarrow> client_inv w1"
proof (induction evs arbitrary: w)
  case Nil
  then show ?case by simp
next
  case (Cons ev evs)
  from Cons.prems(2) obtain w2 where s: "step ev w = Some w2" and r: "run evs w2 = Some w1"
    by (auto split: option.splits)
  from run_ncalls [OF r] Cons.prems(3) have "ncalls w2 < 2 ^ 64 - 1" by simp
  from step_client_inv [OF Cons.prems(1) s this] have "client_inv w2" .
  from Cons.IH [OF this r Cons.prems(3)] show ?case .
qed

lemma NewClientCodec_inv: "client_inv (NewClientCodec op)"
  by (simp add: client_inv_def inv_alloc_def inv_locks_def inv_once_def inv_seq_def
        to_signal_def pending_calls_def seq_of_def NewClientCodec_def)

lemma count_list_distinct:
  "distinct xs \<Longrightarrow> x \<in> set xs \<Longrightarrow> count_list xs x = 1"
  by (induction xs) auto

lemma run_append:
  "run (evs @ evs') w = (case run evs w of None \<Rightarrow> None | Some w1 \<Rightarrow> run evs' w1)"
  by (induction evs arbitrary: w) (auto split: option.splits)

text \<open>
  A call whose write fails is registered, taken from the map again and signalled; and
  so the next one, any number of times.
\<close>

lemma failed_write_cycle:
  assumes "sending w = Unlocked" and "\<not> closing w" and "\<not> shutdown w" and "pending w = []"
  shows "\<exists>w1. run [EvGo sm args reply None, EvWritten (Some msg), EvSignal] w = Some w1
    \<and> sending w1 = Unlocked \<and> \<not> closing w1 \<and> \<not> shutdown w1 \<and> pending w1 = []
    \<and> seq w1 = seq w + 1 \<and> ncalls w1 = ncalls w + 1
    \<and> seq_of w1 = (seq_of w)(ncalls w \<mapsto> seq w)
    \<and> fired w1 = fired w @ [ncalls w]"
  using assms by (simp add: client_defs seq_of_def fun_eq_iff)

lemma concat_replicate_Suc:
  "concat (replicate (Suc n) xs) = concat (replicate n xs) @ xs"
  by (induction n) simp_all

lemma failed_write_cycles:
  assumes "sending w = Unlocked" and "\<not> closing w" and "\<not> shutdown w" and "pending w = []"
  shows "\<exists>w1. run (concat (replicate n [EvGo sm args reply None, EvWritten (Some msg), EvSignal])) w
       = Some w1
    \<and> sending w1 = Unlocked \<and> \<not> closing w1 \<and> \<not> shutdown w1 \<and> pending w1 = []
    \<and> seq w1 = seq w + of_nat n \<and> ncalls w1 = ncalls w + n
    \<and> (\<forall>i<n. seq_of w1 (ncalls w + i) = Some (seq w + of_nat i))
    \<and> fired w1 = fired w @ [ncalls w..<ncalls w + n]"
proof (induction n)
  case 0
  with assms show ?case by simp
next
  case (Suc n)
  let ?cyc = "[EvGo sm args reply None, EvWritten (Some msg), EvSignal]"
  from Suc obtain w1 where r1: "run (concat (replicate n ?cyc)) w = Some w1"
    and k: "sending w1 = Unlocked" "\<not> closing w1" "\<not> shutdown w1" "pending w1 = []"
    and v: "seq w1 = seq w + of_nat n" "ncalls w1 = ncalls w + n"
      "\<forall>i<n. seq_of w1 (ncalls w + i) = Some (seq w + of_nat i)"
      "fired w1 = fired w @ [ncalls w..<ncalls w + n]"
    by blast
  from failed_write_cycle [OF k, of sm args reply msg] obtain w2 where
    r2: "run ?cyc w1 = Some w2"
    and k2: "sending w2 = Unlocked" "\<not> closing w2" "\<not> shutdown w2" "pending w2 = []"
    and v2: "seq w2 = seq w1 + 1" "ncalls w2 = ncalls w1 + 1"
      "seq_of w2 = (seq_of w1)(ncalls w1 \<mapsto> seq w1)"
      "fired w2 = fired w1 @ [ncalls w1]"
    by blast
  have r: "run (concat (replicate (Suc n) ?cyc)) w = Some w2"
    unfolding concat_replicate_Suc run_append r1 using r2 by simp
  have sq: "seq w2 = seq w + of_nat (Suc n)" by (simp add: v2 v)
  have nc: "ncalls w2 = ncalls w + Suc n" by (simp add: v2 v)
  have so: "\<forall>i<Suc n. seq_of w2 (ncalls w + i) = Some (seq w + of_nat i)"
  proof (intro allI impI)
    fix i assume "i < Suc n"
    then show "seq_of w2 (ncalls w + i) = Some (seq w + of_nat i)"
      using v(3) by (cases "i = n") (simp_all add: v2(3) v(1,2))
  qed
  have fi: "fired w2 = fired w @ [ncalls w..<ncalls w + Suc n]"
    by (simp add: v2 v)
  from r k2 sq nc so fi show ?case by blast
qed

text \<open>
  Claim C3, as amended. In every state a client made by \<^verbatim>\<open>NewClientCodec\<close> reaches,
  whatever its goroutines do and in whatever order, as long as fewer than \<open>2 ^ 64 - 1\<close>
  calls have been made through \<^verbatim>\<open>Go\<close>: no call has been signalled twice, so each call
  that has completed was signalled exactly once, and only calls made by \<^verbatim>\<open>Go\<close> are
  signalled; the sequence numbers start at 1 and the next one is never 0;
  \<^verbatim>\<open>registerCall\<close> gives the next one to the call it accepts and 0 with the shutdown
  error to the call it refuses; every call's number is below the next one, of two
  calls the one that came to \<^verbatim>\<open>send\<close> later has the greater number unless it was
  refused and has none (0), and so no number other than 0 is that of two calls; an
  entry of \<^verbatim>\<open>pending\<close> holds a call under its own number, which is not 0; and unless
  \<^verbatim>\<open>terminateCalls\<close> has run (\<^verbatim>\<open>shutdown\<close>), no call of \<^verbatim>\<open>pending\<close> has been signalled,
  and \<^verbatim>\<open>pending\<close> is empty once every call made has been signalled.
\<close>

theorem calls_once_seq_unique:
  assumes "run evs (NewClientCodec op) = Some w" and "ncalls w < 2 ^ 64 - 1"
  shows "distinct (fired w) \<and> set (fired w) \<subseteq> {..<ncalls w}
    \<and> (\<forall>c \<in> set (fired w). count_list (fired w) c = 1)
    \<and> seq (NewClientCodec op) = 1 \<and> seq w \<noteq> 0
    \<and> (\<forall>c. fst (registerCall c w) =
          (if closing w \<or> shutdown w then (0, Some ErrShutdown) else (seq w, None)))
    \<and> (\<forall>c sq. seq_of w c = Some sq \<longrightarrow> unat sq < unat (seq w))
    \<and> (\<forall>c d sq tq. c < d \<and> seq_of w c = Some sq \<and> seq_of w d = Some tq \<and> tq \<noteq> 0
          \<longrightarrow> unat sq < unat tq)
    \<and> (\<forall>c d sq. c \<noteq> d \<and> seq_of w c = Some sq \<and> seq_of w d = Some sq \<longrightarrow> sq = 0)
    \<and> (\<forall>p \<in> set (pending w). fst p \<noteq> 0 \<and> seq_of w (snd p) = Some (fst p))
    \<and> (\<not> shutdown w \<longrightarrow> set (fired w) \<inter> snd ` set (pending w) = {})
    \<and> (\<not> shutdown w \<and> (\<forall>c < ncalls w. c \<in> set (fired w)) \<longrightarrow> pending w = [])"
proof -
  from run_client_inv [OF NewClientCodec_inv assms] have "client_inv w" .
  then have i: "inv_alloc w" "inv_locks w" "inv_once w" "inv_seq w"
    by (simp_all add: client_inv_def)
  note o = inv_onceD [OF i(3)]
  note l = inv_locksD [OF i(2)]
  note a = inv_allocD [OF i(1)]
  note q = inv_seqD [OF i(4)]
  have d: "distinct (fired w)" using o(1) by simp
  have b: "set (fired w) \<subseteq> {..<ncalls w}" using a(2) by auto
  have cnt: "\<forall>c \<in> set (fired w). count_list (fired w) c = 1"
    using count_list_distinct [OF d] by blast
  have s1: "seq (NewClientCodec op) = 1" by (simp add: NewClientCodec_def)
  have nz: "seq w \<noteq> 0" using q(1) by (auto simp: unat_eq_0)
  have reg: "\<forall>c. fst (registerCall c w) =
          (if closing w \<or> shutdown w then (0, Some ErrShutdown) else (seq w, None))"
    by (simp add: registerCall_def)
  have below: "\<forall>c sq. seq_of w c = Some sq \<longrightarrow> unat sq < unat (seq w)"
    using q(3) by blast
  have mono: "\<forall>c d sq tq. c < d \<and> seq_of w c = Some sq \<and> seq_of w d = Some tq \<and> tq \<noteq> 0
          \<longrightarrow> unat sq < unat tq"
    using q(4) by blast
  have uniq: "\<forall>c d sq. c \<noteq> d \<and> seq_of w c = Some sq \<and> seq_of w d = Some sq \<longrightarrow> sq = 0"
  proof (intro allI impI)
    fix c d :: nat and sq
    assume h: "c \<noteq> d \<and> seq_of w c = Some sq \<and> seq_of w d = Some sq"
    show "sq = 0"
    proof (rule ccontr)
      assume n: "sq \<noteq> 0"
      from h have "c < d \<or> d < c" by auto
      then show False
      proof
        assume "c < d"
        from q(4) [OF this, of sq sq] h n show False by simp
      next
        assume "d < c"
        from q(4) [OF this, of sq sq] h n show False by simp
      qed
    qed
  qed
  have pend: "\<forall>p \<in> set (pending w). fst p \<noteq> 0 \<and> seq_of w (snd p) = Some (fst p)"
    using q(5) by blast
  have disj: "set (fired w) \<inter> snd ` set (pending w) = {}" if "\<not> shutdown w"
  proof -
    from that l(1) have "\<not> terminating (receiver w)" by simp
    from o(1) to_signal_running [OF this] show ?thesis by auto
  qed
  have empty: "pending w = []" if "\<not> shutdown w" and all: "\<forall>c < ncalls w. c \<in> set (fired w)"
  proof (rule ccontr)
    assume "pending w \<noteq> []"
    then obtain p where p: "p \<in> set (pending w)" by (cases "pending w") auto
    from a(4) [OF p] all have "snd p \<in> set (fired w)" by simp
    moreover from p have "snd p \<in> snd ` set (pending w)" by simp
    ultimately show False using disj [OF that(1)] by blast
  qed
  from d b cnt s1 nz reg below mono uniq pend disj empty show ?thesis by blast
qed

text \<open>
  Two calls in flight together and answered in the opposite order: each is signalled
  once, their numbers are 1 and 2, and nothing is left in \<^verbatim>\<open>pending\<close>.
\<close>

theorem calls_once_seq_unique_witness:
  "map_option ncalls (run
      [EvGo ''Foo.Sum'' (Some ''3,4'') (Some []) None, EvWritten None,
       EvGo ''Foo.Sum'' (Some ''5,6'') (Some []) None, EvWritten None,
       EvFrame \<lparr>Header.ServiceMethod = ''Foo.Sum'', Header.Seq = 2, Header.Error = []\<rparr> None (Inr ''11''),
       EvComplete,
       EvFrame \<lparr>Header.ServiceMethod = ''Foo.Sum'', Header.Seq = 1, Header.Error = []\<rparr> None (Inr ''7''),
       EvComplete]
      (NewClientCodec (DefaultOption ''gob''))) = Some 2
   \<and> (\<exists>w. run
      [EvGo ''Foo.Sum'' (Some ''3,4'') (Some []) None, EvWritten None,
       EvGo ''Foo.Sum'' (Some ''5,6'') (Some []) None, EvWritten None,
       EvFrame \<lparr>Header.ServiceMethod = ''Foo.Sum'', Header.Seq = 2, Header.Error = []\<rparr> None (Inr ''11''),
       EvComplete,
       EvFrame \<lparr>Header.ServiceMethod = ''Foo.Sum'', Header.Seq = 1, Header.Error = []\<rparr> None (Inr ''7''),
       EvComplete]
      (NewClientCodec (DefaultOption ''gob'')) = Some w
     \<and> ncalls w < 2 ^ 64 - 1 \<and> \<not> shutdown w \<and> fired w = [1, 0]
     \<and> distinct (fired w) \<and> count_list (fired w) 0 = 1 \<and> count_list (fired w) 1 = 1
     \<and> seq_of w 0 = Some 1 \<and> seq_of w 1 = Some 2 \<and> seq w \<noteq> 0
     \<and> pending w = [])"
proof -
  let ?evs = "[EvGo ''Foo.Sum'' (Some ''3,4'') (Some []) None, EvWritten None,
       EvGo ''Foo.Sum'' (Some ''5,6'') (Some []) None, EvWritten None,
       EvFrame \<lparr>Header.ServiceMethod = ''Foo.Sum'', Header.Seq = 2, Header.Error = []\<rparr> None (Inr ''11''),
       EvComplete,
       EvFrame \<lparr>Header.ServiceMethod = ''Foo.Sum'', Header.Seq = 1, Header.Error = []\<rparr> None (Inr ''7''),
       EvComplete]"
  let ?w0 = "NewClientCodec (DefaultOption ''gob'')"
  obtain w where r: "run ?evs ?w0 = Some w"
    by (simp add: client_defs NewClientCodec_def)
  have f: "ncalls w = 2" "\<not> shutdown w" "fired w = [1, 0]" "seq_of w 0 = Some 1" "seq_of w 1 = Some 2"
    using r by (auto simp: client_defs NewClientCodec_def seq_of_def)
  from f(1) have small: "ncalls w < 2 ^ 64 - 1" by simp
  note th = calls_once_seq_unique [OF r small]
  from th have d: "distinct (fired w)" by blast
  from th f(3) have c0: "count_list (fired w) 0 = 1" and c1: "count_list (fired w) 1 = 1"
    by (simp_all del: count_list.simps)
  from th have nz: "seq w \<noteq> 0" by blast
  have all: "\<forall>c < ncalls w. c \<in> set (fired w)"
    unfolding f by (simp add: less_Suc_eq numeral_2_eq_2)
  from th f(2) all have p: "pending w = []" by blast
  have n: "map_option ncalls (run ?evs ?w0) = Some 2" unfolding r by (simp add: f)
  from n r small f d c0 c1 nz p show ?thesis by blast
qed

text \<open>
  The claim as stated fails in two places. A call whose request was written is
  completed by \<^verbatim>\<open>terminateCalls\<close> when the receiver reads \<^verbatim>\<open>EOF\<close>: the one
  call made has completed, and its entry is still in \<^verbatim>\<open>pending\<close>, since \<^verbatim>\<open>terminateCalls\<close>
  deletes nothing. And \<^verbatim>\<open>seq\<close> is a \<^verbatim>\<open>uint64\<close>: after \<open>2 ^ 64 - 1\<close> calls, each of them
  registered, completed and taken from the map (here each write failed), the next
  number is 0; after \<open>2 ^ 64 + 1\<close> of them the first call and the last have the number 1.
\<close>

theorem pending_left_seq_reused:
  "map_option fired (run
      [EvGo ''Foo.Sum'' (Some ''3,4'') (Some []) None, EvWritten None, EvHeaderError ''EOF'',
       EvTerminate [1], EvNotify, EvTerminated]
      (NewClientCodec (DefaultOption ''gob''))) = Some [0]
   \<and> map_option ncalls (run
      [EvGo ''Foo.Sum'' (Some ''3,4'') (Some []) None, EvWritten None, EvHeaderError ''EOF'',
       EvTerminate [1], EvNotify, EvTerminated]
      (NewClientCodec (DefaultOption ''gob''))) = Some 1
   \<and> map_option pending (run
      [EvGo ''Foo.Sum'' (Some ''3,4'') (Some []) None, EvWritten None, EvHeaderError ''EOF'',
       EvTerminate [1], EvNotify, EvTerminated]
      (NewClientCodec (DefaultOption ''gob''))) = Some [(1, 0)]
   \<and> map_option seq (run
      (concat (replicate (2 ^ 64 - 1)
         [EvGo ''Foo.Sum'' (Some ''3,4'') (Some []) None, EvWritten (Some ''broken pipe''), EvSignal]))
      (NewClientCodec (DefaultOption ''gob''))) = Some 0
   \<and> map_option ncalls (run
      (concat (replicate (2 ^ 64 + 1)
         [EvGo ''Foo.Sum'' (Some ''3,4'') (Some []) None, EvWritten (Some ''broken pipe''), EvSignal]))
      (NewClientCodec (DefaultOption ''gob''))) = Some (2 ^ 64 + 1)
   \<and> map_option fired (run
      (concat (replicate (2 ^ 64 + 1)
         [EvGo ''Foo.Sum'' (Some ''3,4'') (Some []) None, EvWritten (Some ''broken pipe''), EvSignal]))
      (NewClientCodec (DefaultOption ''gob''))) = Some [0..<2 ^ 64 + 1]
   \<and> seq_of (the (run
      (concat (replicate (2 ^ 64 + 1)
         [EvGo ''Foo.Sum'' (Some ''3,4'') (Some []) None, EvWritten (Some ''broken pipe''), EvSignal]))
      (NewClientCodec (DefaultOption ''gob'')))) 0 = Some 1
   \<and> seq_of (the (run
      (concat (replicate (2 ^ 64 + 1)
         [EvGo ''Foo.Sum'' (Some ''3,4'') (Some []) None, EvWritten (Some ''broken pipe''), EvSignal]))
      (NewClientCodec (DefaultOption ''gob'')))) (2 ^ 64) = Some 1"
proof -
  let ?w0 = "NewClientCodec (DefaultOption ''gob'')"
  let ?cyc = "[EvGo ''Foo.Sum'' (Some ''3,4'') (Some []) None, EvWritten (Some ''broken pipe''), EvSignal]"
  let ?evs = "[EvGo ''Foo.Sum'' (Some ''3,4'') (Some []) None, EvWritten None, EvHeaderError ''EOF'',
       EvTerminate [1], EvNotify, EvTerminated]"
  define N :: nat where "N = 2 ^ 64"
  have z: "(of_nat N :: 64 word) = 0" by (simp add: N_def)
  have pos: "N - 1 + 1 = N" by (simp add: N_def)
  have "(1 :: 64 word) + of_nat (N - 1) = of_nat (N - 1 + 1)" by simp
  then have z1: "(1 :: 64 word) + of_nat (N - 1) = 0" by (simp only: pos z)
  have k: "sending ?w0 = Unlocked" "\<not> closing ?w0" "\<not> shutdown ?w0" "pending ?w0 = []"
    and v: "seq ?w0 = 1" "ncalls ?w0 = 0" "fired ?w0 = []"
    by (simp_all add: NewClientCodec_def)
  have a: "map_option fired (run ?evs ?w0) = Some [0]"
    by (simp add: client_defs NewClientCodec_def)
  have b: "map_option ncalls (run ?evs ?w0) = Some 1"
    by (simp add: client_defs NewClientCodec_def)
  have c: "map_option pending (run ?evs ?w0) = Some [(1, 0)]"
    by (simp add: client_defs NewClientCodec_def)
  from failed_write_cycles [OF k, of "N - 1" "''Foo.Sum''" "Some ''3,4''" "Some []" "''broken pipe''"]
  obtain w1 where r1: "run (concat (replicate (N - 1) ?cyc)) ?w0 = Some w1"
    and s1: "seq w1 = seq ?w0 + of_nat (N - 1)" by blast
  have d: "map_option seq (run (concat (replicate (N - 1) ?cyc)) ?w0) = Some 0"
    unfolding r1 by (simp only: option.map s1 v z1)
  from failed_write_cycles [OF k, of "N + 1" "''Foo.Sum''" "Some ''3,4''" "Some []" "''broken pipe''"]
  obtain w2 where r2: "run (concat (replicate (N + 1) ?cyc)) ?w0 = Some w2"
    and n2: "ncalls w2 = ncalls ?w0 + (N + 1)"
    and q2: "\<forall>i<N + 1. seq_of w2 (ncalls ?w0 + i) = Some (seq ?w0 + of_nat i)"
    and f2: "fired w2 = fired ?w0 @ [ncalls ?w0..<ncalls ?w0 + (N + 1)]" by blast
  have e: "map_option ncalls (run (concat (replicate (N + 1) ?cyc)) ?w0) = Some (N + 1)"
    unfolding r2 by (simp add: n2 v)
  have f: "map_option fired (run (concat (replicate (N + 1) ?cyc)) ?w0) = Some [0..<N + 1]"
    unfolding r2 by (simp add: f2 v)
  have "seq_of w2 (ncalls ?w0 + 0) = Some (seq ?w0 + of_nat 0)"
    using q2 [rule_format, of 0] by simp
  then have g: "seq_of (the (run (concat (replicate (N + 1) ?cyc)) ?w0)) 0 = Some 1"
    unfolding r2 by (simp add: v)
  have "seq_of w2 (ncalls ?w0 + N) = Some (seq ?w0 + of_nat N)"
    using q2 [rule_format, of N] by simp
  then have h: "seq_of (the (run (concat (replicate (N + 1) ?cyc)) ?w0)) N = Some 1"
    unfolding r2 by (simp add: v z)
  from a b c d e f g h show ?thesis unfolding N_def by blast
qed

end
